theory Spec2Isabelle
  imports Complex_Main "HOL-Library.Sublist" "HOL-Library.AList"
begin

section \<open>JavaScript strings\<close>

text \<open>
  A JavaScript string is a sequence of UTF-16 code units, and every operation of
  \<^verbatim>\<open>services/geminiService.ts\<close> that looks into a string (\<^verbatim>\<open>match\<close>, \<^verbatim>\<open>replace\<close>,
  \<^verbatim>\<open>trim\<close>, \<^verbatim>\<open>JSON.parse\<close>) works on code units. A code unit is modelled as a natural
  number (every JavaScript string is such a list, with all elements below 65536), and
  \<open>js\<close> turns an ASCII literal into its code units, so that the regular expression
  \<^verbatim>\<open>/```json\n/\<close> is \<open>js ''```json\<newline>''\<close>.
\<close>

type_synonym jsstring = "nat list"

definition js :: "string \<Rightarrow> jsstring" where
  "js s = map of_char s"

section \<open>The two shapes of regular expression the service uses\<close>

text \<open>
  All three regular expressions of the service have the shape
  \<^verbatim>\<open>/OPEN([\s\S]*?)CLOSE/\<close> (in the \<^verbatim>\<open>replace\<close> call without the capture group): a literal,
  then any code units at all, as few as possible, then a literal; no flags. The matcher
  below is the backtracking search of the language: start positions are tried from the
  left; at a start position the literal \<open>OPEN\<close> must be next, and then the body is
  grown one code unit at a time until \<open>CLOSE\<close> is next.
\<close>

fun lazy_body :: "jsstring \<Rightarrow> jsstring \<Rightarrow> jsstring option" where
  "lazy_body cl [] = (if cl = [] then Some [] else None)"
| "lazy_body cl (x # xs) =
     (if prefix cl (x # xs) then Some [] else map_option ((#) x) (lazy_body cl xs))"

definition exec_at :: "jsstring \<Rightarrow> jsstring \<Rightarrow> jsstring \<Rightarrow> jsstring option" where
  "exec_at opn cl s = (if prefix opn s then lazy_body cl (drop (length opn) s) else None)"

text \<open>
  The result of a successful \<^verbatim>\<open>String.prototype.match\<close>: the position of the match
  (\<^verbatim>\<open>m.index\<close>), the matched text (\<^verbatim>\<open>m[0]\<close>) and the text of the capture group
  (\<^verbatim>\<open>m[1]\<close>). \<open>None\<close> is the \<^verbatim>\<open>null\<close> of a failed match.
\<close>

record regexp_match =
  index :: nat
  group0 :: jsstring
  group1 :: jsstring

fun regex_exec_from :: "nat \<Rightarrow> jsstring \<Rightarrow> jsstring \<Rightarrow> jsstring \<Rightarrow> regexp_match option" where
  "regex_exec_from i opn cl [] =
     (case exec_at opn cl [] of
        Some g \<Rightarrow> Some \<lparr>index = i, group0 = opn @ g @ cl, group1 = g\<rparr>
      | None \<Rightarrow> None)"
| "regex_exec_from i opn cl (x # xs) =
     (case exec_at opn cl (x # xs) of
        Some g \<Rightarrow> Some \<lparr>index = i, group0 = opn @ g @ cl, group1 = g\<rparr>
      | None \<Rightarrow> regex_exec_from (Suc i) opn cl xs)"

definition regex_exec :: "jsstring \<Rightarrow> jsstring \<Rightarrow> jsstring \<Rightarrow> regexp_match option" where
  "regex_exec opn cl s = regex_exec_from 0 opn cl s"

text \<open>
  \<^verbatim>\<open>s.replace(/OPEN[\s\S]*?CLOSE/, '')\<close>: the first match is cut out; a string without
  a match is returned as it is. The regular expression has no \<^verbatim>\<open>g\<close> flag, so at most
  one match is replaced.
\<close>

definition replace_first_with_empty :: "jsstring \<Rightarrow> jsstring \<Rightarrow> jsstring \<Rightarrow> jsstring" where
  "replace_first_with_empty opn cl s =
     (case regex_exec opn cl s of
        None \<Rightarrow> s
      | Some m \<Rightarrow> take (index m) s @ drop (index m + length (group0 m)) s)"

text \<open>
  \<^verbatim>\<open>String.prototype.trim\<close> removes the code units of the grammar classes WhiteSpace
  and LineTerminator from both ends.
\<close>

definition is_js_space :: "nat \<Rightarrow> bool" where
  "is_js_space c \<longleftrightarrow>
     c \<in> {0x09, 0x0A, 0x0B, 0x0C, 0x0D, 0x20, 0xA0, 0x1680, 0x2000, 0x2001, 0x2002,
          0x2003, 0x2004, 0x2005, 0x2006, 0x2007, 0x2008, 0x2009, 0x200A, 0x2028,
          0x2029, 0x202F, 0x205F, 0x3000, 0xFEFF}"

definition trim :: "jsstring \<Rightarrow> jsstring" where
  "trim s = rev (dropWhile is_js_space (rev (dropWhile is_js_space s)))"

section \<open>JSON values and thrown errors\<close>

text \<open>
  The values \<^verbatim>\<open>JSON.parse\<close> can return. A number is the exact rational its literal
  denotes (the rounding to a double is not modelled); an object is the list of its
  properties in insertion order, each key once.
\<close>

datatype json =
    JNull
  | JBool bool
  | JNum rat
  | JStr jsstring
  | JArr "json list"
  | JObj "(jsstring \<times> json) list"

text \<open>
  What the service can see thrown: the \<^verbatim>\<open>SyntaxError\<close> of \<^verbatim>\<open>JSON.parse\<close>, a
  failure of the call to the model provider (network, authentication, quota), with
  the provider's message, and the \<^verbatim>\<open>TypeError\<close> of reading a property of
  \<^verbatim>\<open>null\<close> or \<^verbatim>\<open>undefined\<close>.
\<close>

datatype error = SyntaxError | ProviderError jsstring | TypeError

section \<open>extractJson\<close>

text \<open>
  \<^verbatim>\<open>
  const extractJson = (text: string): any => {
    const jsonMatch = text.match(/```json\n([\s\S]*?)\n```/) || text.match(/```\n([\s\S]*?)\n```/);
    if (jsonMatch) {
      try { return JSON.parse(jsonMatch[1]); }
      catch (e) { console.warn("Failed to parse extracted JSON", e); return null; }
    }
    return null;
  };
  \<close>
  \<^verbatim>\<open>JSON.parse\<close> belongs to the language, not to the repository; it is the parameter
  \<open>parse\<close>, which returns \<open>Inr v\<close> for the decoded value and \<open>Inl e\<close> where
  \<^verbatim>\<open>JSON.parse\<close> throws. The result of \<open>extractJson\<close> is \<open>Inl e\<close> where the function
  would throw \<open>e\<close> to its caller and \<open>Inr v\<close> where it returns \<open>v\<close>.
\<close>

definition tagged_open :: jsstring where
  "tagged_open = js ''```json\<newline>''"

definition untagged_open :: jsstring where
  "untagged_open = js ''```\<newline>''"

definition fence_close :: jsstring where
  "fence_close = js ''\<newline>```''"

definition jsonMatch :: "jsstring \<Rightarrow> regexp_match option" where
  "jsonMatch text =
     (case regex_exec tagged_open fence_close text of
        Some m \<Rightarrow> Some m
      | None \<Rightarrow> regex_exec untagged_open fence_close text)"

definition extractJson :: "(jsstring \<Rightarrow> error + json) \<Rightarrow> jsstring \<Rightarrow> error + json" where
  "extractJson parse text =
     (case jsonMatch text of
        Some m \<Rightarrow> (case parse (group1 m) of Inr v \<Rightarrow> Inr v | Inl e \<Rightarrow> Inr JNull)
      | None \<Rightarrow> Inr JNull)"

text \<open>
  A fenced block inside a text: the opening fence, the content, the closing fence,
  with anything before and after.
\<close>

definition block_in :: "jsstring \<Rightarrow> jsstring \<Rightarrow> jsstring \<Rightarrow> bool" where
  "block_in opn c text \<longleftrightarrow> sublist (opn @ c @ fence_close) text"

section \<open>A model of JSON.parse\<close>

text \<open>
  The general theorems below hold for every \<open>parse\<close>. Concrete inputs are evaluated
  with \<open>JSON_parse\<close>, a recursive-descent parser for the JSON grammar (ECMA-404) as
  \<^verbatim>\<open>JSON.parse\<close> reads it: insignificant white space is space, tab, line feed and
  carriage return; a string may not hold a raw control character; a number has no
  leading zero and no bare sign, point or exponent; nothing but white space may follow
  the value; a repeated key keeps its first position and its last value.
\<close>

definition is_json_ws :: "nat \<Rightarrow> bool" where
  "is_json_ws c \<longleftrightarrow> c = 0x20 \<or> c = 0x09 \<or> c = 0x0A \<or> c = 0x0D"

definition skip_ws :: "jsstring \<Rightarrow> jsstring" where
  "skip_ws s = dropWhile is_json_ws s"

definition is_digit :: "nat \<Rightarrow> bool" where
  "is_digit c \<longleftrightarrow> 48 \<le> c \<and> c \<le> 57"

definition digits_value :: "jsstring \<Rightarrow> nat" where
  "digits_value ds = foldl (\<lambda>a d. 10 * a + (d - 48)) 0 ds"

definition hex_value :: "nat \<Rightarrow> nat option" where
  "hex_value c =
     (if 48 \<le> c \<and> c \<le> 57 then Some (c - 48)
      else if 65 \<le> c \<and> c \<le> 70 then Some (c - 55)
      else if 97 \<le> c \<and> c \<le> 102 then Some (c - 87)
      else None)"

definition hex4 :: "jsstring \<Rightarrow> nat option" where
  "hex4 s =
     (case s of
        a # b # c # d # _ \<Rightarrow>
          (case (hex_value a, hex_value b, hex_value c, hex_value d) of
             (Some h3, Some h2, Some h1, Some h0) \<Rightarrow> Some (((h3 * 16 + h2) * 16 + h1) * 16 + h0)
           | _ \<Rightarrow> None)
      | _ \<Rightarrow> None)"

text \<open>The character after a backslash: \<^verbatim>\<open>" \ / b f n r t\<close>.\<close>

definition unescape :: "nat \<Rightarrow> nat option" where
  "unescape e =
     (if e = 34 then Some 34
      else if e = 92 then Some 92
      else if e = 47 then Some 47
      else if e = 98 then Some 8
      else if e = 102 then Some 12
      else if e = 110 then Some 10
      else if e = 114 then Some 13
      else if e = 116 then Some 9
      else None)"

text \<open>The rest of a string after its opening quote; \<open>acc\<close> is what has been decoded.\<close>

fun parse_string_body :: "jsstring \<Rightarrow> jsstring \<Rightarrow> (jsstring \<times> jsstring) option" where
  "parse_string_body acc [] = None"
| "parse_string_body acc (c # cs) =
     (if c = 34 then Some (acc, cs)
      else if c = 92 then
        (case cs of
           [] \<Rightarrow> None
         | e # es \<Rightarrow>
             if e = 117 then
               (case hex4 es of
                  Some u \<Rightarrow> parse_string_body (acc @ [u]) (drop 4 es)
                | None \<Rightarrow> None)
             else
               (case unescape e of
                  Some u \<Rightarrow> parse_string_body (acc @ [u]) es
                | None \<Rightarrow> None))
      else if c < 32 then None
      else parse_string_body (acc @ [c]) cs)"

text \<open>
  \<^verbatim>\<open>-? (0 | [1-9][0-9]*) (. [0-9]+)? ([eE] [+-]? [0-9]+)?\<close>, read as far as it goes.
\<close>

definition parse_sign :: "jsstring \<Rightarrow> bool \<times> jsstring" where
  "parse_sign s = (case s of [] \<Rightarrow> (False, s) | c # r \<Rightarrow> if c = 45 then (True, r) else (False, s))"

definition parse_int_part :: "jsstring \<Rightarrow> (nat \<times> jsstring) option" where
  "parse_int_part s =
     (case s of
        [] \<Rightarrow> None
      | c # r \<Rightarrow>
          if c = 48 then Some (0, r)
          else if is_digit c then Some (digits_value (takeWhile is_digit s), dropWhile is_digit s)
          else None)"

definition parse_frac_part :: "jsstring \<Rightarrow> (rat \<times> jsstring) option" where
  "parse_frac_part s =
     (case s of
        [] \<Rightarrow> Some (0, s)
      | c # r \<Rightarrow>
          if c = 46 then
            (let ds = takeWhile is_digit r in
             if ds = [] then None
             else Some (of_nat (digits_value ds) / 10 ^ length ds, dropWhile is_digit r))
          else Some (0, s))"

definition parse_exp_part :: "jsstring \<Rightarrow> (int \<times> jsstring) option" where
  "parse_exp_part s =
     (case s of
        [] \<Rightarrow> Some (0, s)
      | c # r \<Rightarrow>
          if c = 101 \<or> c = 69 then
            (let (neg, r') = (case r of
                                [] \<Rightarrow> (False, r)
                              | d # t \<Rightarrow> if d = 45 then (True, t) else if d = 43 then (False, t)
                                         else (False, r));
                 ds = takeWhile is_digit r' in
             if ds = [] then None
             else Some (if neg then - int (digits_value ds) else int (digits_value ds),
                        dropWhile is_digit r'))
          else Some (0, s))"

definition scale10 :: "rat \<Rightarrow> int \<Rightarrow> rat" where
  "scale10 x e = (if 0 \<le> e then x * 10 ^ nat e else x / 10 ^ nat (- e))"

definition parse_number :: "jsstring \<Rightarrow> (rat \<times> jsstring) option" where
  "parse_number s =
     (let (neg, s1) = parse_sign s in
      case parse_int_part s1 of
        None \<Rightarrow> None
      | Some (i, s2) \<Rightarrow>
          (case parse_frac_part s2 of
             None \<Rightarrow> None
           | Some (f, s3) \<Rightarrow>
               (case parse_exp_part s3 of
                  None \<Rightarrow> None
                | Some (e, s4) \<Rightarrow>
                    Some (let x = scale10 (of_nat i + f) e in if neg then - x else x, s4))))"

text \<open>
  Values, array elements and object members. The first argument bounds the depth of
  the calls; every two nested calls read at least one character, so
  \<open>enough_depth s = 2 * length s + 1\<close> is enough for a text \<open>s\<close> (lemma
  \<open>JSON_parse_iff\<close> below).
\<close>

fun parse_value :: "nat \<Rightarrow> jsstring \<Rightarrow> (json \<times> jsstring) option"
  and parse_elements :: "nat \<Rightarrow> json list \<Rightarrow> jsstring \<Rightarrow> (json \<times> jsstring) option"
  and parse_members :: "nat \<Rightarrow> (jsstring \<times> json) list \<Rightarrow> jsstring \<Rightarrow> (json \<times> jsstring) option"
  where
  "parse_value 0 s = None"
| "parse_value (Suc n) s =
     (case skip_ws s of
        [] \<Rightarrow> None
      | c # r \<Rightarrow>
          if c = 123 then
            (case skip_ws r of
               [] \<Rightarrow> None
             | d # r' \<Rightarrow> if d = 125 then Some (JObj [], r') else parse_members n [] (d # r'))
          else if c = 91 then
            (case skip_ws r of
               [] \<Rightarrow> None
             | d # r' \<Rightarrow> if d = 93 then Some (JArr [], r') else parse_elements n [] (d # r'))
          else if c = 34 then
            (case parse_string_body [] r of
               None \<Rightarrow> None
             | Some (str, r') \<Rightarrow> Some (JStr str, r'))
          else if prefix (js ''true'') (c # r) then Some (JBool True, drop 4 (c # r))
          else if prefix (js ''false'') (c # r) then Some (JBool False, drop 5 (c # r))
          else if prefix (js ''null'') (c # r) then Some (JNull, drop 4 (c # r))
          else
            (case parse_number (c # r) of
               None \<Rightarrow> None
             | Some (q, r') \<Rightarrow> Some (JNum q, r')))"
| "parse_elements 0 acc s = None"
| "parse_elements (Suc n) acc s =
     (case parse_value n s of
        None \<Rightarrow> None
      | Some (v, r) \<Rightarrow>
          (case skip_ws r of
             [] \<Rightarrow> None
           | c # r' \<Rightarrow>
               if c = 44 then parse_elements n (acc @ [v]) r'
               else if c = 93 then Some (JArr (acc @ [v]), r')
               else None))"
| "parse_members 0 acc s = None"
| "parse_members (Suc n) acc s =
     (case skip_ws s of
        [] \<Rightarrow> None
      | c # r \<Rightarrow>
          if c \<noteq> 34 then None
          else
            (case parse_string_body [] r of
               None \<Rightarrow> None
             | Some (k, r1) \<Rightarrow>
                 (case skip_ws r1 of
                    [] \<Rightarrow> None
                  | d # r2 \<Rightarrow>
                      if d \<noteq> 58 then None
                      else
                        (case parse_value n r2 of
                           None \<Rightarrow> None
                         | Some (v, r3) \<Rightarrow>
                             (case skip_ws r3 of
                                [] \<Rightarrow> None
                              | e # r4 \<Rightarrow>
                                  if e = 44 then parse_members n (AList.update k v acc) r4
                                  else if e = 125 then Some (JObj (AList.update k v acc), r4)
                                  else None)))))"

fun enough_depth :: "jsstring \<Rightarrow> nat" where
  "enough_depth [] = Suc 0"
| "enough_depth (c # cs) = Suc (Suc (enough_depth cs))"

definition JSON_parse :: "jsstring \<Rightarrow> error + json" where
  "JSON_parse s =
     (case parse_value (enough_depth s) s of
        None \<Rightarrow> Inl SyntaxError
      | Some (v, r) \<Rightarrow> if skip_ws r = [] then Inr v else Inl SyntaxError)"

section \<open>The shape of a weather report\<close>

text \<open>
  The WeatherReport JSON shape of the specification:
  \<^verbatim>\<open>{kpIndex, solarWindSpeed, solarWindDensity, bz, probabilityScore, visibilityChance,
   tonightsWindow, nearestDetection:{location,status},
   solarFlare:{class,time,impact,region?,eta?}, locationName, forecast:[{time,kp} x 6]}\<close>,
  with the kinds the data model gives the fields: numbers, a score that is a whole number
  from 0 to 100, one of four visibility levels, texts. The interface \<^verbatim>\<open>WeatherData\<close> of
  \<^verbatim>\<open>types.ts\<close> has the same fields and two more, \<^verbatim>\<open>summary\<close> and \<^verbatim>\<open>timestamp\<close>.
\<close>

definition field :: "string \<Rightarrow> json \<Rightarrow> json option" where
  "field k v = (case v of JObj ps \<Rightarrow> map_of ps (js k) | _ \<Rightarrow> None)"

definition is_number :: "json option \<Rightarrow> bool" where
  "is_number v = (case v of Some (JNum _) \<Rightarrow> True | _ \<Rightarrow> False)"

definition is_text :: "json option \<Rightarrow> bool" where
  "is_text v = (case v of Some (JStr _) \<Rightarrow> True | _ \<Rightarrow> False)"

definition is_optional_text :: "json option \<Rightarrow> bool" where
  "is_optional_text v = (case v of None \<Rightarrow> True | Some (JStr _) \<Rightarrow> True | _ \<Rightarrow> False)"

definition is_score :: "json option \<Rightarrow> bool" where
  "is_score v = (case v of Some (JNum q) \<Rightarrow> q \<in> \<int> \<and> 0 \<le> q \<and> q \<le> 100 | _ \<Rightarrow> False)"

definition is_visibility :: "json option \<Rightarrow> bool" where
  "is_visibility v =
     (case v of
        Some (JStr t) \<Rightarrow> t = js ''Low'' \<or> t = js ''Moderate'' \<or> t = js ''High'' \<or> t = js ''Extreme''
      | _ \<Rightarrow> False)"

definition is_detection :: "json option \<Rightarrow> bool" where
  "is_detection v =
     (case v of
        Some d \<Rightarrow> is_text (field ''location'' d) \<and> is_text (field ''status'' d)
      | None \<Rightarrow> False)"

definition is_flare :: "json option \<Rightarrow> bool" where
  "is_flare v =
     (case v of
        Some f \<Rightarrow>
          is_text (field ''class'' f) \<and> is_text (field ''time'' f) \<and> is_text (field ''impact'' f)
          \<and> is_optional_text (field ''region'' f) \<and> is_optional_text (field ''eta'' f)
      | None \<Rightarrow> False)"

definition is_forecast_point :: "json \<Rightarrow> bool" where
  "is_forecast_point v \<longleftrightarrow> is_text (field ''time'' v) \<and> is_number (field ''kp'' v)"

definition is_forecast :: "json option \<Rightarrow> bool" where
  "is_forecast v =
     (case v of
        Some (JArr ps) \<Rightarrow> length ps = 6 \<and> list_all is_forecast_point ps
      | _ \<Rightarrow> False)"

definition is_WeatherReport :: "json \<Rightarrow> bool" where
  "is_WeatherReport v \<longleftrightarrow>
     is_number (field ''kpIndex'' v) \<and> is_number (field ''solarWindSpeed'' v)
     \<and> is_number (field ''solarWindDensity'' v) \<and> is_number (field ''bz'' v)
     \<and> is_score (field ''probabilityScore'' v) \<and> is_visibility (field ''visibilityChance'' v)
     \<and> is_text (field ''tonightsWindow'' v) \<and> is_detection (field ''nearestDetection'' v)
     \<and> is_flare (field ''solarFlare'' v) \<and> is_text (field ''locationName'' v)
     \<and> is_forecast (field ''forecast'' v)"

section \<open>The shape of a photo analysis\<close>

text \<open>
  The interface \<^verbatim>\<open>PhotoAnalysis\<close> of \<^verbatim>\<open>types.ts\<close>:
  \<^verbatim>\<open>{cloudCover, darknessRating, recommendedSettings:{iso,shutterSpeed,aperture,focus},
   checklist:[string,...], feedback}\<close>, all of them texts.
\<close>

definition is_settings :: "json option \<Rightarrow> bool" where
  "is_settings v =
     (case v of
        Some st \<Rightarrow>
          is_text (field ''iso'' st) \<and> is_text (field ''shutterSpeed'' st)
          \<and> is_text (field ''aperture'' st) \<and> is_text (field ''focus'' st)
      | None \<Rightarrow> False)"

definition is_text_value :: "json \<Rightarrow> bool" where
  "is_text_value v = (case v of JStr _ \<Rightarrow> True | _ \<Rightarrow> False)"

definition is_checklist :: "json option \<Rightarrow> bool" where
  "is_checklist v = (case v of Some (JArr items) \<Rightarrow> list_all is_text_value items | _ \<Rightarrow> False)"

definition is_PhotoAnalysis :: "json \<Rightarrow> bool" where
  "is_PhotoAnalysis v \<longleftrightarrow>
     is_text (field ''cloudCover'' v) \<and> is_text (field ''darknessRating'' v)
     \<and> is_settings (field ''recommendedSettings'' v) \<and> is_checklist (field ''checklist'' v)
     \<and> is_text (field ''feedback'' v)"

section \<open>The provider, the environment and promises\<close>

text \<open>
  An \<^verbatim>\<open>async\<close> function returns a promise. \<open>Resolved d v\<close> is a promise that is
  fulfilled with \<open>v\<close>, \<open>d\<close> being the milliseconds the function itself hands to
  \<^verbatim>\<open>setTimeout\<close> before it resolves (0 where it sets no timer); \<open>Rejected e\<close> is a
  promise rejected with \<open>e\<close>, which an awaiting caller sees thrown.
\<close>

datatype 'a promise = Resolved nat 'a | Rejected error

record coordinates =
  latitude :: rat
  longitude :: rat

text \<open>
  The reply of \<^verbatim>\<open>ai.models.generateContent\<close>, as far as the service reads it:
  \<^verbatim>\<open>response.text\<close> and
  \<^verbatim>\<open>response.candidates?.[0]?.groundingMetadata?.groundingChunks\<close>. Where a value is
  only tested with \<^verbatim>\<open>||\<close> or \<^verbatim>\<open>?.\<close>, which treat \<^verbatim>\<open>undefined\<close> and \<^verbatim>\<open>null\<close>
  alike, \<open>None\<close> is either of them. The grounding chunks are declared \<^verbatim>\<open>any[]\<close> and
  their properties are read without such a test, so a chunk and its \<^verbatim>\<open>web\<close> are
  \<^verbatim>\<open>undefined\<close>, \<^verbatim>\<open>null\<close> or an object.
\<close>

datatype 'a js_ref = Undefined | Null | Object 'a

record grounding_source =
  uri :: "jsstring option"
  title :: "jsstring option"

record grounding_chunk =
  web :: "grounding_source js_ref"

record grounding_metadata =
  groundingChunks :: "grounding_chunk js_ref list option"

record candidate =
  groundingMetadata :: "grounding_metadata option"

record response =
  response_text :: "jsstring option"
  candidates :: "candidate list option"

text \<open>
  The model name, the prompt template and the configuration of a call are constants of
  the flow that makes it, so a request is the flow together with the values it puts
  into its prompt: the coordinates, or the image and the device type.
\<close>

datatype request =
    ForecastRequest coordinates
  | PhotoRequest jsstring jsstring

datatype client = GoogleGenAI jsstring

text \<open>
  What the module gets from outside: \<^verbatim>\<open>process.env.API_KEY\<close>, the provider behind
  \<^verbatim>\<open>generateContent\<close> (\<open>Inl e\<close> where the call fails with \<open>e\<close>), \<^verbatim>\<open>JSON.parse\<close>, and
  the value \<^verbatim>\<open>new Date().toISOString()\<close> had when the module was loaded.
\<close>

record platform =
  API_KEY :: "jsstring option"
  generateContent :: "client \<Rightarrow> request \<Rightarrow> error + response"
  json_parser :: "jsstring \<Rightarrow> error + json"
  loaded_at :: jsstring

text \<open>
  \<^verbatim>\<open>
  const getAI = (): GoogleGenAI | null => {
    const apiKey = process.env.API_KEY;
    if (!apiKey) { console.warn(...); return null; }
    return new GoogleGenAI({ apiKey });
  };
  \<close>
  \<^verbatim>\<open>!apiKey\<close> holds for an absent key and for the empty string.
\<close>

definition getAI :: "platform \<Rightarrow> client option" where
  "getAI p =
     (case API_KEY p of
        None \<Rightarrow> None
      | Some apiKey \<Rightarrow> if apiKey = [] then None else Some (GoogleGenAI apiKey))"

section \<open>The demonstration data\<close>

text \<open>
  The literals of the source file, code unit by code unit; the file holds a few
  characters outside ASCII, which are given by their numbers.
\<close>

definition MOCK_summary :: jsstring where
  "MOCK_summary =
     [0xE2, 0x161, 0xA0, 0xEF, 0xB8]
     @ js '' DEMO MODE: API Key not detected. Displaying simulated storm conditions. \<newline>\<newline>''
     @ js ''A moderate geomagnetic storm (G2) is in progress due to a Coronal Hole High Speed Stream (CH HSS). ''
     @ js ''High-latitude observers should have excellent visibility.''"

definition MOCK_WEATHER_DATA :: "jsstring \<Rightarrow> json" where
  "MOCK_WEATHER_DATA now =
     JObj
      [(js ''kpIndex'', JNum (533 / 100)),
       (js ''solarWindSpeed'', JNum 520),
       (js ''solarWindDensity'', JNum (125 / 10)),
       (js ''bz'', JNum (- (62 / 10))),
       (js ''probabilityScore'', JNum 78),
       (js ''summary'', JStr MOCK_summary),
       (js ''visibilityChance'', JStr (js ''High'')),
       (js ''tonightsWindow'', JStr (js ''22:00 - 02:00 Local'')),
       (js ''nearestDetection'',
          JObj [(js ''location'', JStr (js ''Troms'' @ [0xC3, 0xB8] @ js '', Norway'')),
                (js ''status'', JStr (js ''Visual Sighting Confirmed''))]),
       (js ''solarFlare'',
          JObj [(js ''class'', JStr (js ''M2.4'')),
                (js ''time'', JStr (js ''14:30 UTC'')),
                (js ''impact'', JStr (js ''Minor Radio Blackout (R1)'')),
                (js ''region'', JStr (js ''AR3664'')),
                (js ''eta'', JStr (js ''Tomorrow 08:00 UTC''))]),
       (js ''forecast'',
          JArr [JObj [(js ''time'', JStr (js ''Now'')), (js ''kp'', JNum 5)],
                JObj [(js ''time'', JStr (js ''+1h'')), (js ''kp'', JNum 6)],
                JObj [(js ''time'', JStr (js ''+2h'')), (js ''kp'', JNum 5)],
                JObj [(js ''time'', JStr (js ''+3h'')), (js ''kp'', JNum 4)],
                JObj [(js ''time'', JStr (js ''+4h'')), (js ''kp'', JNum 3)],
                JObj [(js ''time'', JStr (js ''+5h'')), (js ''kp'', JNum 3)]]),
       (js ''timestamp'', JStr now),
       (js ''locationName'', JStr (js ''Simulated Sector (Demo)''))]"

definition MOCK_PHOTO_ANALYSIS :: json where
  "MOCK_PHOTO_ANALYSIS =
     JObj
      [(js ''cloudCover'', JStr (js ''Partly Cloudy (Simulated)'')),
       (js ''darknessRating'', JStr (js ''Bortle 4 (Rural Transition)'')),
       (js ''recommendedSettings'',
          JObj [(js ''iso'', JStr (js ''1600 - 3200'')),
                (js ''shutterSpeed'', JStr (js ''8s - 15s'')),
                (js ''aperture'', JStr (js ''f/2.8 or lower'')),
                (js ''focus'', JStr (js ''Infinity (Manual)''))]),
       (js ''checklist'',
          JArr [JStr (js ''Use a tripod (Mandatory)''),
                JStr (js ''Set 2s timer to avoid shake''),
                JStr (js ''Shoot in RAW format'')]),
       (js ''feedback'',
          JStr (js ''Demo Mode: Great conditions simulated! Look for gaps in the clouds to the North.''))]"

definition DEMO_REPLY :: jsstring where
  "DEMO_REPLY =
     js ''I am currently in Demo Mode because the API Key is missing. ''
     @ js ''I cannot process live queries, but I can confirm your systems are operational! ''
     @ [0xF0, 0x178, 0x161, 0x20AC]"

section \<open>fetchSpaceWeather\<close>

record search_result =
  data :: json
  rawText :: jsstring
  sources :: "grounding_source list"

text \<open>\<^verbatim>\<open>response.text || ""\<close>: an absent text and an empty one both give the empty string.\<close>

definition text_of :: "response \<Rightarrow> jsstring" where
  "text_of r = (case response_text r of None \<Rightarrow> [] | Some t \<Rightarrow> t)"

text \<open>\<^verbatim>\<open>response.candidates?.[0]?.groundingMetadata?.groundingChunks || []\<close>\<close>

definition chunks_of :: "response \<Rightarrow> grounding_chunk js_ref list" where
  "chunks_of r =
     (case candidates r of
        None \<Rightarrow> []
      | Some cs \<Rightarrow>
          (case cs of
             [] \<Rightarrow> []
           | c # _ \<Rightarrow>
               (case groundingMetadata c of
                  None \<Rightarrow> []
                | Some gm \<Rightarrow> (case groundingChunks gm of None \<Rightarrow> [] | Some chunks \<Rightarrow> chunks))))"

text \<open>
  \<^verbatim>\<open>sources.map((chunk) => chunk.web).filter((web) => web !== undefined)
         .map((web) => ({ uri: web.uri, title: web.title }))\<close>
  Each of the three calls goes through the whole array before the next starts.
  \<^verbatim>\<open>chunk.web\<close> throws a \<^verbatim>\<open>TypeError\<close> where the chunk is \<^verbatim>\<open>null\<close> or
  \<^verbatim>\<open>undefined\<close>; the filter drops \<^verbatim>\<open>undefined\<close> only, so that \<^verbatim>\<open>web.uri\<close> throws
  where \<^verbatim>\<open>web\<close> is \<^verbatim>\<open>null\<close>.
\<close>

fun map_throwing :: "('a \<Rightarrow> error + 'b) \<Rightarrow> 'a list \<Rightarrow> error + 'b list" where
  "map_throwing f [] = Inr []"
| "map_throwing f (x # xs) =
     (case f x of
        Inl e \<Rightarrow> Inl e
      | Inr y \<Rightarrow> (case map_throwing f xs of Inl e \<Rightarrow> Inl e | Inr ys \<Rightarrow> Inr (y # ys)))"

fun chunk_web :: "grounding_chunk js_ref \<Rightarrow> error + grounding_source js_ref" where
  "chunk_web (Object chunk) = Inr (web chunk)"
| "chunk_web Null = Inl TypeError"
| "chunk_web Undefined = Inl TypeError"

fun source_of_web :: "grounding_source js_ref \<Rightarrow> error + grounding_source" where
  "source_of_web (Object w) = Inr \<lparr>uri = uri w, title = title w\<rparr>"
| "source_of_web Null = Inl TypeError"
| "source_of_web Undefined = Inl TypeError"

definition mappedSources :: "grounding_chunk js_ref list \<Rightarrow> error + grounding_source list" where
  "mappedSources chunks =
     (case map_throwing chunk_web chunks of
        Inl e \<Rightarrow> Inl e
      | Inr webs \<Rightarrow> map_throwing source_of_web (filter (\<lambda>w. w \<noteq> Undefined) webs))"

text \<open>\<^verbatim>\<open>text.replace(/```json[\s\S]*?```/, '').trim()\<close>\<close>

definition strip_block :: "jsstring \<Rightarrow> jsstring" where
  "strip_block text = trim (replace_first_with_empty (js ''```json'') (js ''```'') text)"

text \<open>
  Without a client the function resolves, 1500 ms later, to the demonstration result.
  With one, everything from the call to the provider on is inside
  \<^verbatim>\<open>try { ... } catch (error) { console.error(...); throw error; }\<close>: whatever is thrown
  there rejects the promise.
\<close>

definition fetchSpaceWeather :: "platform \<Rightarrow> coordinates \<Rightarrow> search_result promise" where
  "fetchSpaceWeather p coords =
     (case getAI p of
        None \<Rightarrow>
          Resolved 1500
            \<lparr>data = MOCK_WEATHER_DATA (loaded_at p),
             rawText = MOCK_summary,
             sources = [\<lparr>uri = Some (js ''https://www.swpc.noaa.gov/''),
                         title = Some (js ''NOAA Space Weather (Simulated)'')\<rparr>]\<rparr>
      | Some ai \<Rightarrow>
          (case generateContent p ai (ForecastRequest coords) of
             Inl error \<Rightarrow> Rejected error
           | Inr response \<Rightarrow>
               (case mappedSources (chunks_of response) of
                  Inl error \<Rightarrow> Rejected error
                | Inr mapped \<Rightarrow>
                    (case extractJson (json_parser p) (text_of response) of
                       Inl error \<Rightarrow> Rejected error
                     | Inr jsonData \<Rightarrow>
                         Resolved 0
                           \<lparr>data = jsonData,
                            rawText = strip_block (text_of response),
                            sources = mapped\<rparr>))))"

section \<open>analyzeSkyPhoto\<close>

text \<open>
  \<^verbatim>\<open>
  try {
    const response = await ai.models.generateContent({...});
    const text = response.text || "";
    try { return JSON.parse(text); } catch (e) { return extractJson(text); }
  } catch (error) { console.error("Error analyzing photo:", error); return null; }
  \<close>
\<close>

definition analyzeSkyPhoto :: "platform \<Rightarrow> jsstring \<Rightarrow> jsstring \<Rightarrow> json promise" where
  "analyzeSkyPhoto p base64Image deviceType =
     (case getAI p of
        None \<Rightarrow> Resolved 2000 MOCK_PHOTO_ANALYSIS
      | Some ai \<Rightarrow>
          (case generateContent p ai (PhotoRequest base64Image deviceType) of
             Inl error \<Rightarrow> Resolved 0 JNull
           | Inr response \<Rightarrow>
               (case json_parser p (text_of response) of
                  Inr v \<Rightarrow> Resolved 0 v
                | Inl e \<Rightarrow>
                    (case extractJson (json_parser p) (text_of response) of
                       Inr v \<Rightarrow> Resolved 0 v
                     | Inl error \<Rightarrow> Resolved 0 JNull))))"

section \<open>createChatSession\<close>

text \<open>
  Without a client the function returns an object whose \<^verbatim>\<open>sendMessage\<close> is
  \<^verbatim>\<open>async (msg) => { return { text: "I am currently in Demo Mode ..." }; }\<close>; with one it
  returns the chat object of the provider's library. A chat object of the library keeps
  its conversation outside this program; \<open>'w\<close> is everything a send could change (the
  provider's record of the conversation, the transcript the component shows), and a send
  takes it and returns it, changed or not.
\<close>

datatype 'h chat_session = MockSession | LibrarySession 'h

record chat_reply =
  reply_text :: jsstring

definition createChatSession :: "platform \<Rightarrow> (client \<Rightarrow> 'h) \<Rightarrow> 'h chat_session" where
  "createChatSession p chats_create =
     (case getAI p of
        None \<Rightarrow> MockSession
      | Some ai \<Rightarrow> LibrarySession (chats_create ai))"

fun sendMessage ::
  "('h \<Rightarrow> jsstring \<Rightarrow> 'w \<Rightarrow> chat_reply promise \<times> 'w) \<Rightarrow> 'h chat_session \<Rightarrow> jsstring \<Rightarrow> 'w
   \<Rightarrow> chat_reply promise \<times> 'w" where
  "sendMessage library_send MockSession message w = (Resolved 0 \<lparr>reply_text = DEMO_REPLY\<rparr>, w)"
| "sendMessage library_send (LibrarySession h) message w = library_send h message w"

section \<open>Text without a fence at the start of a line\<close>

text \<open>
  For the proofs about \<open>JSON_parse\<close>: \<open>safe b p\<close> says that no backtick of \<open>p\<close> follows
  a line feed, and that \<open>p\<close> starts with a backtick only if \<open>b\<close> allows it;
  \<open>consumed s r\<close> says that \<open>r\<close> is what is left of \<open>s\<close> after such a text has
  been read from its front, and \<open>eaten s r\<close> that at least one code unit has been read.
\<close>

fun safe :: "bool \<Rightarrow> jsstring \<Rightarrow> bool" where
  "safe b [] = True"
| "safe b (c # cs) = ((c \<noteq> 96 \<or> b) \<and> safe (c \<noteq> 10) cs)"

definition consumed :: "jsstring \<Rightarrow> jsstring \<Rightarrow> bool" where
  "consumed s r \<longleftrightarrow> (\<exists>p. s = p @ r \<and> safe False p)"

definition eaten :: "jsstring \<Rightarrow> jsstring \<Rightarrow> bool" where
  "eaten s r \<longleftrightarrow> consumed s r \<and> length r < length s"

section \<open>Environments for the examples\<close>

text \<open>
  An environment without a key, and environments with a key whose provider gives one
  fixed answer: a failure, or a reply with a text and no grounding.
\<close>

definition demo_platform :: platform where
  "demo_platform =
     \<lparr>API_KEY = None,
      generateContent = (\<lambda>ai req. Inl (ProviderError (js ''unreachable''))),
      json_parser = JSON_parse,
      loaded_at = js ''2025-01-01T00:00:00.000Z''\<rparr>"

definition live_platform :: "(error + response) \<Rightarrow> platform" where
  "live_platform reply =
     \<lparr>API_KEY = Some (js ''test-key''),
      generateContent = (\<lambda>ai req. reply),
      json_parser = JSON_parse,
      loaded_at = js ''2025-01-01T00:00:00.000Z''\<rparr>"

definition reply_with :: "jsstring \<Rightarrow> error + response" where
  "reply_with t = Inr \<lparr>response_text = Some t, candidates = None\<rparr>"

definition reply_with_chunks :: "jsstring \<Rightarrow> grounding_chunk js_ref list \<Rightarrow> error + response" where
  "reply_with_chunks t chunks =
     Inr \<lparr>response_text = Some t,
          candidates = Some [\<lparr>groundingMetadata = Some \<lparr>groundingChunks = Some chunks\<rparr>\<rparr>]\<rparr>"

definition noaa_source :: grounding_source where
  "noaa_source = \<lparr>uri = Some (js ''https://www.swpc.noaa.gov/''), title = Some (js ''NOAA'')\<rparr>"

section \<open>What the matcher finds\<close>

lemma prefix_of_append_long:
  assumes "prefix p (xs @ ys)" and "length p \<le> length xs"
  shows "prefix p xs"
  using assms by (metis prefix_append prefix_order.refl
      append_eq_append_conv_if prefix_def take_is_prefix)

lemma lazy_body_sound: "lazy_body cl s = Some g \<Longrightarrow> \<exists>r. s = g @ cl @ r"
proof (induction s arbitrary: g)
  case Nil
  then show ?case by (auto split: if_splits)
next
  case (Cons x xs)
  show ?case
  proof (cases "prefix cl (x # xs)")
    case True
    with Cons.prems have "g = []" by simp
    with True show ?thesis by (auto simp: prefix_def)
  next
    case False
    with Cons.prems obtain g' where g': "lazy_body cl xs = Some g'" "g = x # g'" by auto
    from Cons.IH[OF g'(1)] g'(2) show ?thesis by auto
  qed
qed

lemma lazy_body_first:
  assumes "\<not> sublist cl (g @ butlast cl)"
  shows "lazy_body cl (g @ cl @ r) = Some g"
  using assms
proof (induction g)
  case Nil
  have "prefix cl (cl @ r)" by simp
  then show ?case by (cases "cl @ r") auto
next
  case (Cons x g)
  have ne: "cl \<noteq> []" using Cons.prems by auto
  have "\<not> prefix cl (x # g @ cl @ r)"
  proof
    assume p: "prefix cl (x # g @ cl @ r)"
    have "x # g @ cl @ r = (x # g @ butlast cl) @ (last cl # r)" using ne by simp
    moreover have "length cl \<le> length (x # g @ butlast cl)" by simp
    ultimately have "prefix cl (x # g @ butlast cl)" using p prefix_of_append_long by metis
    then have "sublist cl (x # g @ butlast cl)" by (rule prefix_imp_sublist)
    with Cons.prems show False by simp
  qed
  moreover have "\<not> sublist cl (g @ butlast cl)" using Cons.prems by (auto simp: sublist_Cons_right)
  ultimately show ?case using Cons.IH by simp
qed

lemma lazy_body_complete: "sublist cl s \<Longrightarrow> \<exists>g. lazy_body cl s = Some g"
proof (induction s)
  case Nil
  then show ?case by simp
next
  case (Cons x xs)
  then show ?case by (cases "prefix cl (x # xs)") (auto simp: sublist_Cons_right)
qed


lemma regex_exec_from_sound:
  "regex_exec_from i opn cl s = Some m \<Longrightarrow>
     \<exists>p r. s = p @ opn @ group1 m @ cl @ r \<and> index m = i + length p \<and> group0 m = opn @ group1 m @ cl"
proof (induction s arbitrary: i)
  case Nil
  then show ?case
    by (auto simp: exec_at_def split: option.splits if_splits)
next
  case (Cons x xs)
  show ?case
  proof (cases "exec_at opn cl (x # xs)")
    case None
    with Cons.prems have "regex_exec_from (Suc i) opn cl xs = Some m" by simp
    from Cons.IH[OF this] obtain p r where "xs = p @ opn @ group1 m @ cl @ r"
      "index m = Suc i + length p" "group0 m = opn @ group1 m @ cl" by blast
    then have "x # xs = (x # p) @ opn @ group1 m @ cl @ r \<and> index m = i + length (x # p) \<and> group0 m = opn @ group1 m @ cl"
      by simp
    then show ?thesis by blast
  next
    case (Some g)
    with Cons.prems have m: "m = \<lparr>index = i, group0 = opn @ g @ cl, group1 = g\<rparr>" by simp
    from Some have p: "prefix opn (x # xs)" and l: "lazy_body cl (drop (length opn) (x # xs)) = Some g"
      by (auto simp: exec_at_def split: if_splits)
    from lazy_body_sound[OF l] obtain r where "drop (length opn) (x # xs) = g @ cl @ r" by blast
    with p have "x # xs = [] @ opn @ g @ cl @ r" by (metis append_Nil append_take_drop_id prefix_def append_eq_conv_conj)
    with m show ?thesis by (intro exI[of _ "[]"] exI[of _ r]) simp
  qed
qed

lemma exec_at_here: "\<exists>g'. exec_at opn cl (opn @ g @ cl @ r) = Some g'"
  using lazy_body_complete[of cl "g @ cl @ r"] by (auto simp: exec_at_def)

lemma regex_exec_from_complete:
  "\<exists>m. regex_exec_from i opn cl (p @ opn @ g @ cl @ r) = Some m"
proof (induction p arbitrary: i)
  case Nil
  obtain g' where "exec_at opn cl (opn @ g @ cl @ r) = Some g'" using exec_at_here by blast
  then show ?case by (cases "opn @ g @ cl @ r") auto
next
  case (Cons x p)
  then show ?case by (cases "exec_at opn cl (x # p @ opn @ g @ cl @ r)") auto
qed

lemma regex_exec_from_first:
  assumes "\<not> sublist opn (p @ butlast opn)" and "\<not> sublist cl (g @ butlast cl)"
  shows "regex_exec_from i opn cl (p @ opn @ g @ cl @ r)
         = Some \<lparr>index = i + length p, group0 = opn @ g @ cl, group1 = g\<rparr>"
  using assms(1)
proof (induction p arbitrary: i)
  case Nil
  have "exec_at opn cl (opn @ g @ cl @ r) = Some g"
    using lazy_body_first[OF assms(2)] by (simp add: exec_at_def)
  then show ?case by (cases "opn @ g @ cl @ r") auto
next
  case (Cons x p)
  have ne: "opn \<noteq> []" using Cons.prems by auto
  have "\<not> prefix opn (x # p @ opn @ g @ cl @ r)"
  proof
    assume pr: "prefix opn (x # p @ opn @ g @ cl @ r)"
    have "x # p @ opn @ g @ cl @ r = (x # p @ butlast opn) @ (last opn # g @ cl @ r)" using ne by simp
    moreover have "length opn \<le> length (x # p @ butlast opn)" by simp
    ultimately have "prefix opn (x # p @ butlast opn)" using pr prefix_of_append_long by metis
    then have "sublist opn (x # p @ butlast opn)" by (rule prefix_imp_sublist)
    with Cons.prems show False by simp
  qed
  then have "exec_at opn cl (x # p @ opn @ g @ cl @ r) = None" by (simp add: exec_at_def)
  moreover have "\<not> sublist opn (p @ butlast opn)" using Cons.prems by (auto simp: sublist_Cons_right)
  ultimately show ?case using Cons.IH[of "Suc i"] by simp
qed

section \<open>The fences\<close>

text \<open>
  None of the three fences can overlap itself, so a fence that starts before the end of a
  text lies inside the text.
\<close>

lemma tagged_open_code: "tagged_open = [96, 96, 96, 106, 115, 111, 110, 10]"
  by (simp add: tagged_open_def js_def)
lemma untagged_open_code: "untagged_open = [96, 96, 96, 10]"
  by (simp add: untagged_open_def js_def)
lemma fence_close_code: "fence_close = [10, 96, 96, 96]"
  by (simp add: fence_close_def js_def)

lemma sublist_butlast_fence_close: "sublist fence_close (c @ butlast fence_close) \<longleftrightarrow> sublist fence_close c"
  unfolding fence_close_code
  by (auto simp: sublist_append append_eq_Cons_conv Cons_eq_append_conv prefix_Cons dest: sublist_length_le)

lemma sublist_butlast_tagged_open: "sublist tagged_open (p @ butlast tagged_open) \<longleftrightarrow> sublist tagged_open p"
  unfolding tagged_open_code
  by (auto simp: sublist_append append_eq_Cons_conv Cons_eq_append_conv prefix_Cons dest: sublist_length_le)

lemma sublist_butlast_untagged_open: "sublist untagged_open (p @ butlast untagged_open) \<longleftrightarrow> sublist untagged_open p"
  unfolding untagged_open_code
  by (auto simp: sublist_append append_eq_Cons_conv Cons_eq_append_conv prefix_Cons dest: sublist_length_le)

section \<open>What extractJson finds\<close>

lemma regex_exec_sound:
  assumes "regex_exec opn cl s = Some m"
  shows "\<exists>p r. s = p @ opn @ group1 m @ cl @ r \<and> index m = length p \<and> group0 m = opn @ group1 m @ cl"
  using regex_exec_from_sound[of 0 opn cl s m] assms by (simp add: regex_exec_def)

lemma regex_exec_complete:
  assumes "sublist (opn @ g @ cl) s"
  shows "\<exists>m. regex_exec opn cl s = Some m"
proof -
  from assms obtain p r where "s = p @ (opn @ g @ cl) @ r" by (auto simp: sublist_def)
  then have "s = p @ opn @ g @ cl @ r" by simp
  then show ?thesis using regex_exec_from_complete[of 0 opn cl p g r] by (simp add: regex_exec_def)
qed

lemma regex_exec_first:
  assumes "\<not> sublist opn (p @ butlast opn)" and "\<not> sublist cl (g @ butlast cl)"
  shows "regex_exec opn cl (p @ opn @ g @ cl @ r)
         = Some \<lparr>index = length p, group0 = opn @ g @ cl, group1 = g\<rparr>"
  using regex_exec_from_first[OF assms, of 0 r] by (simp add: regex_exec_def)

lemma regex_exec_block:
  assumes "regex_exec opn fence_close text = Some m"
  shows "block_in opn (group1 m) text"
proof -
  from regex_exec_sound[OF assms] obtain p r where "text = p @ opn @ group1 m @ fence_close @ r" by blast
  then have "text = p @ (opn @ group1 m @ fence_close) @ r" by simp
  then show ?thesis unfolding block_in_def sublist_def by blast
qed

lemma regex_exec_no_block:
  assumes "\<And>c. \<not> block_in opn c text"
  shows "regex_exec opn fence_close text = None"
proof (cases "regex_exec opn fence_close text")
  case None then show ?thesis .
next
  case (Some m)
  from regex_exec_block[OF Some] assms show ?thesis by blast
qed

lemma jsonMatch_block:
  assumes "jsonMatch text = Some m"
  shows "block_in tagged_open (group1 m) text \<or> block_in untagged_open (group1 m) text"
  using assms regex_exec_block
  by (auto simp: jsonMatch_def split: option.splits)

lemma extractJson_cases:
  "extractJson parse text = Inr JNull \<or>
   (\<exists>m v. jsonMatch text = Some m \<and> parse (group1 m) = Inr v \<and> extractJson parse text = Inr v)"
  by (auto simp: extractJson_def split: option.splits sum.splits)

lemma extractJson_tagged:
  assumes "regex_exec tagged_open fence_close text = Some m"
  shows "extractJson parse text = (case parse (group1 m) of Inr v \<Rightarrow> Inr v | Inl e \<Rightarrow> Inr JNull)"
  using assms by (simp add: extractJson_def jsonMatch_def)

lemma extractJson_first_tagged:
  assumes "\<not> sublist tagged_open p" and "\<not> sublist fence_close c"
  shows "extractJson parse (p @ tagged_open @ c @ fence_close @ r)
         = (case parse c of Inr v \<Rightarrow> Inr v | Inl e \<Rightarrow> Inr JNull)"
proof -
  have "regex_exec tagged_open fence_close (p @ tagged_open @ c @ fence_close @ r)
        = Some \<lparr>index = length p, group0 = tagged_open @ c @ fence_close, group1 = c\<rparr>"
    using assms by (intro regex_exec_first) (simp_all add: sublist_butlast_tagged_open sublist_butlast_fence_close)
  from extractJson_tagged[OF this] show ?thesis by simp
qed

lemma extractJson_first_untagged:
  assumes "\<forall>c'. \<not> block_in tagged_open c' (p @ untagged_open @ c @ fence_close @ r)"
    and "\<not> sublist untagged_open p" and "\<not> sublist fence_close c"
  shows "extractJson parse (p @ untagged_open @ c @ fence_close @ r)
         = (case parse c of Inr v \<Rightarrow> Inr v | Inl e \<Rightarrow> Inr JNull)"
proof -
  have "regex_exec tagged_open fence_close (p @ untagged_open @ c @ fence_close @ r) = None"
    using assms(1) by (intro regex_exec_no_block) blast
  moreover have "regex_exec untagged_open fence_close (p @ untagged_open @ c @ fence_close @ r)
        = Some \<lparr>index = length p, group0 = untagged_open @ c @ fence_close, group1 = c\<rparr>"
    using assms(2,3)
    by (intro regex_exec_first) (simp_all add: sublist_butlast_untagged_open sublist_butlast_fence_close)
  ultimately show ?thesis by (simp add: extractJson_def jsonMatch_def)
qed

lemma no_fence_no_block:
  assumes "\<not> sublist fence_close text"
  shows "\<not> block_in opn c text"
proof
  assume "block_in opn c text"
  then obtain ps ss where "text = ps @ (opn @ c @ fence_close) @ ss"
    by (auto simp: block_in_def sublist_def)
  then have "text = (ps @ opn @ c) @ fence_close @ ss" by simp
  then have "sublist fence_close text" by (simp only: sublist_appendI)
  with assms show False by simp
qed

lemma extractJson_null_if_all_fail:
  assumes "\<forall>c. block_in tagged_open c text \<or> block_in untagged_open c text \<longrightarrow> (\<exists>e. parse c = Inl e)"
  shows "extractJson parse text = Inr JNull"
proof (cases "jsonMatch text")
  case None
  then show ?thesis by (simp add: extractJson_def)
next
  case (Some m)
  from jsonMatch_block[OF Some] assms obtain e where "parse (group1 m) = Inl e" by blast
  with Some show ?thesis by (simp add: extractJson_def)
qed

lemma extractJson_returns: "\<exists>v. extractJson parse text = Inr v"
  using extractJson_cases[of parse "text"] by blast

section \<open>When the mapping of the grounding chunks throws\<close>

lemma map_throwing_Inr_iff:
  "(\<exists>ys. map_throwing f xs = Inr ys) \<longleftrightarrow> (\<forall>x \<in> set xs. \<exists>y. f x = Inr y)"
proof (induction xs)
  case Nil
  show ?case by simp
next
  case (Cons x xs)
  show ?case
  proof (cases "f x")
    case (Inl e)
    then show ?thesis by auto
  next
    case (Inr y)
    with Cons show ?thesis by (cases "map_throwing f xs") auto
  qed
qed

lemma map_throwing_Inr_set:
  "map_throwing f xs = Inr ys \<Longrightarrow> y \<in> set ys \<Longrightarrow> \<exists>x \<in> set xs. f x = Inr y"
proof (induction xs arbitrary: ys)
  case Nil
  then show ?case by simp
next
  case (Cons x xs)
  then show ?case by (auto split: sum.splits)
qed

lemma map_throwing_Inr_all:
  "map_throwing f xs = Inr ys \<Longrightarrow> x \<in> set xs \<Longrightarrow> \<exists>y \<in> set ys. f x = Inr y"
proof (induction xs arbitrary: ys)
  case Nil
  then show ?case by simp
next
  case (Cons a xs)
  then show ?case by (auto split: sum.splits)
qed

lemma chunk_web_Inr_iff: "(\<exists>w. chunk_web c = Inr w) \<longleftrightarrow> (\<exists>g. c = Object g)"
  by (cases c) auto

lemma source_of_web_Inr_iff: "(\<exists>src. source_of_web w = Inr src) \<longleftrightarrow> (\<exists>g. w = Object g)"
  by (cases w) auto

text \<open>
  The mapping returns exactly if every chunk is an object whose \<^verbatim>\<open>web\<close> is not
  \<^verbatim>\<open>null\<close>.
\<close>

lemma mappedSources_Inr_iff:
  "(\<exists>mapped. mappedSources chunks = Inr mapped)
   \<longleftrightarrow> (\<forall>c \<in> set chunks. \<exists>g. c = Object g \<and> web g \<noteq> Null)"
proof
  assume "\<exists>mapped. mappedSources chunks = Inr mapped"
  then obtain mapped webs where w: "map_throwing chunk_web chunks = Inr webs"
    and m: "map_throwing source_of_web (filter (\<lambda>w. w \<noteq> Undefined) webs) = Inr mapped"
    by (auto simp: mappedSources_def split: sum.splits)
  show "\<forall>c \<in> set chunks. \<exists>g. c = Object g \<and> web g \<noteq> Null"
  proof
    fix c assume c: "c \<in> set chunks"
    from map_throwing_Inr_all[OF w c] obtain x where x: "x \<in> set webs" "chunk_web c = Inr x" by blast
    then obtain g where g: "c = Object g" "x = web g" by (cases c) auto
    have "web g \<noteq> Null"
    proof
      assume n: "web g = Null"
      with x g have "Null \<in> set (filter (\<lambda>w. w \<noteq> Undefined) webs)" by simp
      from map_throwing_Inr_all[OF m this] show False by simp
    qed
    with g show "\<exists>g. c = Object g \<and> web g \<noteq> Null" by blast
  qed
next
  assume a: "\<forall>c \<in> set chunks. \<exists>g. c = Object g \<and> web g \<noteq> Null"
  then have "\<forall>c \<in> set chunks. \<exists>w. chunk_web c = Inr w" by auto
  then obtain webs where w: "map_throwing chunk_web chunks = Inr webs"
    using map_throwing_Inr_iff[of chunk_web chunks] by blast
  have "\<forall>x \<in> set (filter (\<lambda>w. w \<noteq> Undefined) webs). \<exists>src. source_of_web x = Inr src"
  proof
    fix x assume "x \<in> set (filter (\<lambda>w. w \<noteq> Undefined) webs)"
    then have x: "x \<in> set webs" "x \<noteq> Undefined" by auto
    from map_throwing_Inr_set[OF w x(1)] obtain c where c: "c \<in> set chunks" "chunk_web c = Inr x" by blast
    with a obtain g where "c = Object g" "web g \<noteq> Null" by blast
    with c x(2) show "\<exists>src. source_of_web x = Inr src" by (cases x) auto
  qed
  then obtain mapped where "map_throwing source_of_web (filter (\<lambda>w. w \<noteq> Undefined) webs) = Inr mapped"
    using map_throwing_Inr_iff[of source_of_web] by blast
  with w show "\<exists>mapped. mappedSources chunks = Inr mapped" by (simp add: mappedSources_def)
qed

section \<open>What the replace call removes\<close>

text \<open>
  The raw text is the reply without its first stretch from \<^verbatim>\<open>```json\<close> to the next
  \<^verbatim>\<open>```\<close>, trimmed; a reply without such a stretch is only trimmed.
\<close>

lemma getAI_None_iff: "getAI p = None \<longleftrightarrow> API_KEY p = None \<or> API_KEY p = Some []"
  by (auto simp: getAI_def split: option.splits)

lemma replace_first_with_empty_first:
  assumes "\<not> sublist opn (p @ butlast opn)" and "\<not> sublist cl (g @ butlast cl)"
  shows "replace_first_with_empty opn cl (p @ opn @ g @ cl @ r) = p @ r"
  using regex_exec_first[OF assms, of r] by (simp add: replace_first_with_empty_def)

lemma replace_first_with_empty_none:
  assumes "\<And>g. \<not> sublist (opn @ g @ cl) s"
  shows "replace_first_with_empty opn cl s = s"
proof (cases "regex_exec opn cl s")
  case None
  then show ?thesis by (simp add: replace_first_with_empty_def)
next
  case (Some m)
  from regex_exec_sound[OF Some] obtain p r where "s = p @ (opn @ group1 m @ cl) @ r" by auto
  then have "sublist (opn @ group1 m @ cl) s" unfolding sublist_def by blast
  with assms show ?thesis by blast
qed

lemma strip_block_first_tagged:
  assumes "\<not> sublist (js ''```json'') (p @ js ''```jso'')" and "\<not> sublist (js ''```'') (g @ js ''``'')"
  shows "strip_block (p @ js ''```json'' @ g @ js ''```'' @ r) = trim (p @ r)"
proof -
  have "butlast (js ''```json'') = js ''```jso''" and "butlast (js ''```'') = js ''``''"
    by (simp_all add: js_def)
  with assms replace_first_with_empty_first[of "js ''```json''" p "js ''```''" g r]
  show ?thesis by (simp add: strip_block_def)
qed

section \<open>A text that JSON.parse accepts holds no closing fence\<close>

text \<open>
  Outside a string, JSON has no backtick; inside a string it has no line feed. So
  whatever \<open>JSON_parse\<close> reads is \<open>safe\<close>, and the closing fence, a line feed followed
  by three backticks, cannot occur in a text it accepts.
\<close>

lemma safe_mono: "safe False p \<Longrightarrow> safe b p"
  by (cases p) auto

lemma safe_append: "safe b xs \<Longrightarrow> safe False ys \<Longrightarrow> safe b (xs @ ys)"
proof (induction xs arbitrary: b)
  case Nil
  then show ?case by (simp add: safe_mono)
next
  case (Cons x xs)
  then show ?case by auto
qed

lemma safe_no_backtick: "96 \<notin> set p \<Longrightarrow> safe b p"
  by (induction p arbitrary: b) auto

lemma safe_no_newline: "10 \<notin> set p \<Longrightarrow> safe True p"
  by (induction p) auto

lemma safe_no_fence: "safe b c \<Longrightarrow> \<not> sublist fence_close c"
proof (induction c arbitrary: b)
  case Nil
  then show ?case by (simp add: fence_close_code)
next
  case (Cons x xs)
  have "\<not> prefix fence_close (x # xs)"
  proof
    assume "prefix fence_close (x # xs)"
    then obtain t where "x # xs = 10 # 96 # 96 # 96 # t"
      by (auto simp: fence_close_code prefix_def)
    with Cons.prems show False by auto
  qed
  moreover from Cons have "\<not> sublist fence_close xs" by auto
  ultimately show ?case by (simp add: sublist_Cons_right)
qed

lemma consumed_refl: "consumed s s"
  by (simp add: consumed_def)

lemma consumed_trans: "consumed s r \<Longrightarrow> consumed r t \<Longrightarrow> consumed s t"
  unfolding consumed_def
  by (metis append.assoc safe_append)

lemma consumed_plain: "96 \<notin> set p \<Longrightarrow> consumed (p @ r) r"
  unfolding consumed_def using safe_no_backtick by blast

lemma consumed_Cons: "c \<noteq> 96 \<Longrightarrow> consumed (c # r) r"
  using consumed_plain[of "[c]" r] by simp

lemma consumed_dropWhile: "(\<And>c. P c \<Longrightarrow> c \<noteq> 96) \<Longrightarrow> consumed s (dropWhile P s)"
proof -
  assume a: "\<And>c. P c \<Longrightarrow> c \<noteq> 96"
  have "96 \<notin> set (takeWhile P s)" using a by (auto dest: set_takeWhileD)
  from consumed_plain[OF this, of "dropWhile P s"] show ?thesis by simp
qed

lemma consumed_skip_ws: "consumed s (skip_ws s)"
  unfolding skip_ws_def by (rule consumed_dropWhile) (auto simp: is_json_ws_def)

lemma consumed_drop_digits: "consumed s (dropWhile is_digit s)"
  by (rule consumed_dropWhile) (auto simp: is_digit_def)

lemma consumed_prefix: "prefix w s \<Longrightarrow> 96 \<notin> set w \<Longrightarrow> consumed s (drop (length w) s)"
  by (metis consumed_plain prefix_def append_eq_conv_conj)

lemma consumed_no_fence: "consumed s r \<Longrightarrow> 96 \<notin> set r \<Longrightarrow> \<not> sublist fence_close s"
proof -
  assume "consumed s r" "96 \<notin> set r"
  then obtain p where "s = p @ r" "safe False p" by (auto simp: consumed_def)
  then have "safe False s" using safe_append[of False p r] safe_no_backtick[OF \<open>96 \<notin> set r\<close>] by simp
  then show ?thesis by (rule safe_no_fence)
qed

lemma hex_value_not_newline: "hex_value c = Some h \<Longrightarrow> c \<noteq> 10"
  by (auto simp: hex_value_def split: if_splits)

lemma hex4_shape:
  assumes "hex4 es = Some u"
  shows "\<exists>a b c d. es = a # b # c # d # drop 4 es \<and> 10 \<notin> {a, b, c, d}"
  using assms
  by (auto simp: hex4_def split: list.splits option.splits dest: hex_value_not_newline)

lemma unescape_not_newline: "unescape e = Some u \<Longrightarrow> e \<noteq> 10"
  by (auto simp: unescape_def split: if_splits)

lemma parse_string_body_shape:
  "parse_string_body acc s = Some (str, r) \<Longrightarrow> \<exists>p. s = p @ r \<and> 10 \<notin> set p"
proof (induction acc s rule: parse_string_body.induct)
  case (1 acc)
  then show ?case by simp
next
  case (2 acc c cs)
  show ?case
  proof (cases "c = 34")
    case True
    with "2.prems" have "r = cs" by simp
    with True show ?thesis by (intro exI[of _ "[c]"]) simp
  next
    case n34: False
    show ?thesis
    proof (cases "c = 92")
      case True
      with n34 "2.prems" obtain e es where es: "cs = e # es" by (auto split: list.splits)
      show ?thesis
      proof (cases "e = 117")
        case e117: True
        with n34 True es "2.prems" obtain u where u: "hex4 es = Some u"
          and rec: "parse_string_body (acc @ [u]) (drop 4 es) = Some (str, r)"
          by (auto split: option.splits)
        from "2.IH"(1)[OF n34 True es e117 u rec] obtain p where p: "drop 4 es = p @ r" "10 \<notin> set p" by blast
        from hex4_shape[OF u] obtain a b c' d where h: "es = a # b # c' # d # drop 4 es" "10 \<notin> {a, b, c', d}" by blast
        have "c # cs = ([c, e, a, b, c', d] @ p) @ r" using es h(1) p(1) by simp
        moreover have "10 \<notin> set ([c, e, a, b, c', d] @ p)" using True e117 h(2) p(2) by auto
        ultimately show ?thesis by blast
      next
        case e117: False
        with n34 True es "2.prems" obtain u where u: "unescape e = Some u"
          and rec: "parse_string_body (acc @ [u]) es = Some (str, r)"
          by (auto split: option.splits)
        from "2.IH"(2)[OF n34 True es e117 u rec] obtain p where p: "es = p @ r" "10 \<notin> set p" by blast
        have "c # cs = ([c, e] @ p) @ r" using es p(1) by simp
        moreover have "10 \<notin> set ([c, e] @ p)" using True unescape_not_newline[OF u] p(2) by auto
        ultimately show ?thesis by blast
      qed
    next
      case n92: False
      with n34 "2.prems" have ge: "\<not> c < 32" and rec: "parse_string_body (acc @ [c]) cs = Some (str, r)"
        by (auto split: if_splits)
      from "2.IH"(3)[OF n34 n92 ge rec] obtain p where p: "cs = p @ r" "10 \<notin> set p" by blast
      have "c # cs = (c # p) @ r" using p(1) by simp
      moreover have "10 \<notin> set (c # p)" using ge p(2) by auto
      ultimately show ?thesis by blast
    qed
  qed
qed

lemma consumed_string:
  assumes "parse_string_body acc s = Some (str, r)"
  shows "consumed (34 # s) r"
proof -
  from parse_string_body_shape[OF assms] obtain p where p: "s = p @ r" "10 \<notin> set p" by blast
  have "safe False (34 # p)" using safe_no_newline[OF p(2)] by simp
  with p(1) show ?thesis unfolding consumed_def by (intro exI[of _ "34 # p"]) simp
qed

lemma consumed_sign: "parse_sign s = (neg, r) \<Longrightarrow> consumed s r"
  by (auto simp: parse_sign_def consumed_refl consumed_Cons split: list.splits if_splits)

lemma consumed_int_part:
  assumes "parse_int_part s = Some (i, r)"
  shows "consumed s r"
proof (cases s)
  case Nil
  with assms show ?thesis by (simp add: parse_int_part_def)
next
  case (Cons c t)
  show ?thesis
  proof (cases "c = 48")
    case True
    with assms Cons show ?thesis by (auto simp: parse_int_part_def consumed_Cons)
  next
    case False
    with assms Cons have d: "is_digit c" and r: "r = dropWhile is_digit t"
      by (auto simp: parse_int_part_def split: if_splits)
    from d have "c \<noteq> 96" by (auto simp: is_digit_def)
    from consumed_trans[OF consumed_Cons[OF this, of t] consumed_drop_digits[of t]] Cons r
    show ?thesis by simp
  qed
qed

lemma consumed_frac_part: "parse_frac_part s = Some (f, r) \<Longrightarrow> consumed s r"
proof (cases s)
  case Nil
  assume "parse_frac_part s = Some (f, r)"
  with Nil show ?thesis by (simp add: parse_frac_part_def consumed_refl)
next
  case (Cons c t)
  assume a: "parse_frac_part s = Some (f, r)"
  show ?thesis
  proof (cases "c = 46")
    case True
    with a Cons have "r = dropWhile is_digit t"
      by (auto simp: parse_frac_part_def Let_def split: if_splits)
    with Cons True consumed_trans[OF consumed_Cons[of c t] consumed_drop_digits[of t]]
    show ?thesis by simp
  next
    case False
    with a Cons show ?thesis by (simp add: parse_frac_part_def consumed_refl)
  qed
qed

lemma consumed_exp_part: "parse_exp_part s = Some (e, r) \<Longrightarrow> consumed s r"
proof (cases s)
  case Nil
  assume "parse_exp_part s = Some (e, r)"
  with Nil show ?thesis by (simp add: parse_exp_part_def consumed_refl)
next
  case (Cons c t)
  assume a: "parse_exp_part s = Some (e, r)"
  show ?thesis
  proof (cases "c = 101 \<or> c = 69")
    case True
    then have c: "consumed s t" using Cons consumed_Cons[of c t] by auto
    obtain t' where t': "consumed t t'" "r = dropWhile is_digit t'"
    proof (cases t)
      case Nil
      with a Cons True have "r = dropWhile is_digit t"
        by (auto simp: parse_exp_part_def Let_def split: if_splits)
      with consumed_refl that show ?thesis by blast
    next
      case (Cons d u)
      show ?thesis
      proof (cases "d = 45 \<or> d = 43")
        case True
        with a \<open>s = c # t\<close> \<open>c = 101 \<or> c = 69\<close> Cons have "r = dropWhile is_digit u"
          by (auto simp: parse_exp_part_def Let_def split: if_splits)
        moreover have "consumed t u" using Cons True consumed_Cons[of d u] by auto
        ultimately show ?thesis using that by blast
      next
        case False
        with a \<open>s = c # t\<close> \<open>c = 101 \<or> c = 69\<close> Cons have "r = dropWhile is_digit t"
          by (auto simp: parse_exp_part_def Let_def split: if_splits)
        with consumed_refl that show ?thesis by blast
      qed
    qed
    from t' consumed_drop_digits[of t'] have "consumed t r" using consumed_trans by blast
    with c show ?thesis using consumed_trans by blast
  next
    case False
    with a Cons show ?thesis by (auto simp: parse_exp_part_def consumed_refl)
  qed
qed

lemma consumed_number:
  assumes "parse_number s = Some (q, r)"
  shows "consumed s r"
proof -
  obtain neg s1 where s1: "parse_sign s = (neg, s1)" by (cases "parse_sign s")
  with assms obtain i s2 where s2: "parse_int_part s1 = Some (i, s2)"
    by (auto simp: parse_number_def split: option.splits)
  with assms s1 obtain f s3 where s3: "parse_frac_part s2 = Some (f, s3)"
    by (auto simp: parse_number_def split: option.splits)
  with assms s1 s2 obtain e where s4: "parse_exp_part s3 = Some (e, r)"
    by (auto simp: parse_number_def split: option.splits)
  from consumed_sign[OF s1] consumed_int_part[OF s2] consumed_frac_part[OF s3] consumed_exp_part[OF s4]
  show ?thesis using consumed_trans by blast
qed

lemma consumed_true:
  assumes "prefix (js ''true'') s"
  shows "consumed s (drop 4 s)"
proof -
  have l: "length (js ''true'') = 4" by (simp add: js_def)
  have n: "96 \<notin> set (js ''true'')" by (simp add: js_def)
  from consumed_prefix[OF assms n] l show ?thesis by simp
qed

lemma consumed_false:
  assumes "prefix (js ''false'') s"
  shows "consumed s (drop 5 s)"
proof -
  have l: "length (js ''false'') = 5" by (simp add: js_def)
  have n: "96 \<notin> set (js ''false'')" by (simp add: js_def)
  from consumed_prefix[OF assms n] l show ?thesis by simp
qed

lemma consumed_null:
  assumes "prefix (js ''null'') s"
  shows "consumed s (drop 4 s)"
proof -
  have l: "length (js ''null'') = 4" by (simp add: js_def)
  have n: "96 \<notin> set (js ''null'')" by (simp add: js_def)
  from consumed_prefix[OF assms n] l show ?thesis by simp
qed

lemma consumed_step: "c \<noteq> 96 \<Longrightarrow> consumed r t \<Longrightarrow> consumed (c # r) t"
  using consumed_Cons consumed_trans by blast

lemma consumed_after_ws: "skip_ws s = t \<Longrightarrow> consumed t u \<Longrightarrow> consumed s u"
  using consumed_skip_ws consumed_trans by blast

lemma consumed_length: "consumed s r \<Longrightarrow> length r \<le> length s"
  by (auto simp: consumed_def)

lemma eaten_consumed: "eaten s r \<Longrightarrow> consumed s r"
  by (simp add: eaten_def)

lemma eaten_Cons: "c \<noteq> 96 \<Longrightarrow> eaten (c # r) r"
  by (simp add: eaten_def consumed_Cons)

lemma eaten_then: "eaten s r \<Longrightarrow> consumed r t \<Longrightarrow> eaten s t"
  unfolding eaten_def using consumed_trans consumed_length by fastforce

lemma then_eaten: "consumed s r \<Longrightarrow> eaten r t \<Longrightarrow> eaten s t"
  unfolding eaten_def using consumed_trans consumed_length by fastforce

lemma eaten_step: "c \<noteq> 96 \<Longrightarrow> consumed r t \<Longrightarrow> eaten (c # r) t"
  using eaten_Cons eaten_then by blast

lemma eaten_after_ws: "skip_ws s = t \<Longrightarrow> eaten t u \<Longrightarrow> eaten s u"
  using consumed_skip_ws then_eaten by blast

lemma eaten_string:
  assumes "parse_string_body acc s = Some (str, r)"
  shows "eaten (34 # s) r"
proof -
  from parse_string_body_shape[OF assms] obtain p where "s = p @ r" by blast
  then have "length r < length (34 # s)" by simp
  with consumed_string[OF assms] show ?thesis by (simp add: eaten_def)
qed

lemma parse_int_part_shorter: "parse_int_part s = Some (i, r) \<Longrightarrow> length r < length s"
  by (auto simp: parse_int_part_def less_Suc_eq_le length_dropWhile_le split: list.splits if_splits)

lemma eaten_number:
  assumes "parse_number s = Some (q, r)"
  shows "eaten s r"
proof -
  obtain neg s1 where s1: "parse_sign s = (neg, s1)" by (cases "parse_sign s")
  with assms obtain i s2 where s2: "parse_int_part s1 = Some (i, s2)"
    by (auto simp: parse_number_def split: option.splits)
  with assms s1 obtain f s3 where s3: "parse_frac_part s2 = Some (f, s3)"
    by (auto simp: parse_number_def split: option.splits)
  with assms s1 s2 obtain e where s4: "parse_exp_part s3 = Some (e, r)"
    by (auto simp: parse_number_def split: option.splits)
  have "eaten s1 s2" using consumed_int_part[OF s2] parse_int_part_shorter[OF s2] by (simp add: eaten_def)
  with consumed_sign[OF s1] have "eaten s s2" by (rule then_eaten)
  then have "eaten s s3" using consumed_frac_part[OF s3] by (rule eaten_then)
  then show ?thesis using consumed_exp_part[OF s4] by (rule eaten_then)
qed

lemma eaten_drop: "consumed s (drop (Suc k) s) \<Longrightarrow> s \<noteq> [] \<Longrightarrow> eaten s (drop (Suc k) s)"
  by (cases s) (auto simp: eaten_def less_Suc_eq_le)

lemma parse_elements_eats:
  assumes IHv: "\<And>s v r. parse_value n s = Some (v, r) \<Longrightarrow> eaten s r"
    and IHe: "\<And>acc s v r. parse_elements n acc s = Some (v, r) \<Longrightarrow> eaten s r"
    and pe: "parse_elements (Suc n) acc s = Some (v, r)"
  shows "eaten s r"
proof -
  from pe obtain v' r1 where 1: "parse_value n s = Some (v', r1)" by (auto split: option.splits)
  with pe obtain c r' where 2: "skip_ws r1 = c # r'" by (auto split: list.splits)
  from 1 2 pe consider (comma) "c = 44" "parse_elements n (acc @ [v']) r' = Some (v, r)"
    | (closing) "c = 93" "r = r'"
    by (auto split: if_splits)
  then have "consumed (c # r') r"
  proof cases
    case comma
    then show ?thesis using IHe eaten_consumed consumed_step by auto
  next
    case closing
    then show ?thesis using consumed_Cons by auto
  qed
  with 2 have "consumed r1 r" by (rule consumed_after_ws)
  with IHv[OF 1] show ?thesis by (rule eaten_then)
qed

lemma parse_members_eats:
  assumes IHv: "\<And>s v r. parse_value n s = Some (v, r) \<Longrightarrow> eaten s r"
    and IHm: "\<And>ms s v r. parse_members n ms s = Some (v, r) \<Longrightarrow> eaten s r"
    and pm: "parse_members (Suc n) ms s = Some (v, r)"
  shows "eaten s r"
proof -
  from pm obtain c t where 1: "skip_ws s = c # t" by (auto split: list.splits)
  with pm have c: "c = 34" by (auto split: if_splits)
  with 1 pm obtain k r1 where 2: "parse_string_body [] t = Some (k, r1)" by (auto split: option.splits)
  with 1 c pm obtain d r2 where 3: "skip_ws r1 = d # r2" by (auto split: list.splits)
  with 1 2 c pm have d: "d = 58" by (auto split: if_splits)
  with 1 2 3 c pm obtain v' r3 where 4: "parse_value n r2 = Some (v', r3)" by (auto split: option.splits)
  with 1 2 3 c d pm obtain e r4 where 5: "skip_ws r3 = e # r4" by (auto split: list.splits)
  from 1 2 3 4 5 c d pm consider (comma) "e = 44" "parse_members n (AList.update k v' ms) r4 = Some (v, r)"
    | (closing) "e = 125" "r = r4"
    by (auto split: if_splits)
  then have "consumed (e # r4) r"
  proof cases
    case comma
    then show ?thesis using IHm eaten_consumed consumed_step by auto
  next
    case closing
    then show ?thesis using consumed_Cons by auto
  qed
  with 5 have "consumed r3 r" by (rule consumed_after_ws)
  with eaten_consumed[OF IHv[OF 4]] have "consumed r2 r" by (rule consumed_trans)
  with d have "consumed (d # r2) r" by (intro consumed_step) auto
  with 3 have "consumed r1 r" by (rule consumed_after_ws)
  with eaten_string[OF 2] have "eaten (34 # t) r" by (rule eaten_then)
  with 1 c show ?thesis by (intro eaten_after_ws[of s "c # t"]) auto
qed

lemma parse_value_eats:
  assumes IHe: "\<And>acc s v r. parse_elements n acc s = Some (v, r) \<Longrightarrow> eaten s r"
    and IHm: "\<And>ms s v r. parse_members n ms s = Some (v, r) \<Longrightarrow> eaten s r"
    and pv: "parse_value (Suc n) s = Some (v, r)"
  shows "eaten s r"
proof -
  from pv obtain c t where 1: "skip_ws s = c # t" by (auto split: list.splits)
  have "eaten (c # t) r"
  proof (cases "c = 123")
    case True
    with 1 pv obtain d t' where 2: "skip_ws t = d # t'" by (auto split: list.splits)
    from 1 2 True pv consider (empty) "d = 125" "r = t'"
      | (members) "d \<noteq> 125" "parse_members n [] (d # t') = Some (v, r)"
      by (auto split: if_splits)
    then have "consumed (d # t') r"
    proof cases
      case empty
      then show ?thesis using consumed_Cons by auto
    next
      case members
      then show ?thesis using IHm eaten_consumed by blast
    qed
    with 2 have "consumed t r" by (rule consumed_after_ws)
    with True show ?thesis by (intro eaten_step) auto
  next
    case n123: False
    show ?thesis
    proof (cases "c = 91")
      case True
      with 1 pv obtain d t' where 2: "skip_ws t = d # t'" by (auto split: list.splits)
      from 1 2 True pv consider (empty) "d = 93" "r = t'"
        | (elements) "d \<noteq> 93" "parse_elements n [] (d # t') = Some (v, r)"
        by (auto split: if_splits)
      then have "consumed (d # t') r"
      proof cases
        case empty
        then show ?thesis using consumed_Cons by auto
      next
        case elements
        then show ?thesis using IHe eaten_consumed by blast
      qed
      with 2 have "consumed t r" by (rule consumed_after_ws)
      with True show ?thesis by (intro eaten_step) auto
    next
      case n91: False
      show ?thesis
      proof (cases "c = 34")
        case True
        with 1 n123 n91 pv obtain str where "parse_string_body [] t = Some (str, r)"
          by (auto split: option.splits)
        from eaten_string[OF this] True show ?thesis by simp
      next
        case n34: False
        show ?thesis
        proof (cases "prefix (js ''true'') (c # t)")
          case True
          with 1 n123 n91 n34 pv have "r = drop 4 (c # t)" by auto
          with consumed_true[OF True] eaten_drop[of "c # t" 3] show ?thesis by simp
        next
          case nt: False
          show ?thesis
          proof (cases "prefix (js ''false'') (c # t)")
            case True
            with 1 n123 n91 n34 nt pv have "r = drop 5 (c # t)" by auto
            with consumed_false[OF True] eaten_drop[of "c # t" 4] show ?thesis by simp
          next
            case nf: False
            show ?thesis
            proof (cases "prefix (js ''null'') (c # t)")
              case True
              with 1 n123 n91 n34 nt nf pv have "r = drop 4 (c # t)" by auto
              with consumed_null[OF True] eaten_drop[of "c # t" 3] show ?thesis by simp
            next
              case nn: False
              with 1 n123 n91 n34 nt nf pv obtain q where "parse_number (c # t) = Some (q, r)"
                by (auto split: option.splits)
              then show ?thesis by (rule eaten_number)
            qed
          qed
        qed
      qed
    qed
  qed
  with 1 show ?thesis by (rule eaten_after_ws)
qed

lemma parse_eaten:
  "(\<forall>s v r. parse_value n s = Some (v, r) \<longrightarrow> eaten s r)
   \<and> (\<forall>acc s v r. parse_elements n acc s = Some (v, r) \<longrightarrow> eaten s r)
   \<and> (\<forall>ms s v r. parse_members n ms s = Some (v, r) \<longrightarrow> eaten s r)"
proof (induction n)
  case 0
  show ?case by simp
next
  case (Suc n)
  then have IHv: "\<And>s v r. parse_value n s = Some (v, r) \<Longrightarrow> eaten s r"
    and IHe: "\<And>acc s v r. parse_elements n acc s = Some (v, r) \<Longrightarrow> eaten s r"
    and IHm: "\<And>ms s v r. parse_members n ms s = Some (v, r) \<Longrightarrow> eaten s r"
    by blast+
  have "eaten s r" if "parse_value (Suc n) s = Some (v, r)" for s v r
    using IHe IHm that by (rule parse_value_eats)
  moreover have "eaten s r" if "parse_elements (Suc n) acc s = Some (v, r)" for acc s v r
    using IHv IHe that by (rule parse_elements_eats)
  moreover have "eaten s r" if "parse_members (Suc n) ms s = Some (v, r)" for ms s v r
    using IHv IHm that by (rule parse_members_eats)
  ultimately show ?case by blast
qed

lemma parse_value_shorter: "parse_value n s = Some (v, r) \<Longrightarrow> length r < length s"
  using parse_eaten[of n] by (auto simp: eaten_def)

lemma parse_elements_shorter: "parse_elements n acc s = Some (v, r) \<Longrightarrow> length r < length s"
  using parse_eaten[of n] by (auto simp: eaten_def)

lemma parse_members_shorter: "parse_members n ms s = Some (v, r) \<Longrightarrow> length r < length s"
  using parse_eaten[of n] by (auto simp: eaten_def)

lemma skip_ws_length: "length (skip_ws s) \<le> length s"
  by (simp add: skip_ws_def length_dropWhile_le)

lemma parse_value_consumed: "parse_value n s = Some (v, r) \<Longrightarrow> consumed s r"
  using parse_eaten[of n] by (auto simp: eaten_def)

lemma skip_ws_empty_no_backtick: "skip_ws r = [] \<Longrightarrow> 96 \<notin> set r"
proof -
  assume "skip_ws r = []"
  then have "\<forall>c \<in> set r. is_json_ws c" by (simp add: skip_ws_def)
  then show ?thesis by (auto simp: is_json_ws_def)
qed

lemma JSON_parse_no_fence:
  assumes "JSON_parse c = Inr v"
  shows "\<not> sublist fence_close c"
proof -
  from assms obtain r where 1: "parse_value (enough_depth c) c = Some (v, r)" and 2: "skip_ws r = []"
    by (auto simp: JSON_parse_def split: option.splits if_splits)
  from parse_value_consumed[OF 1] have "consumed c r" .
  from consumed_no_fence[OF this skip_ws_empty_no_backtick[OF 2]] show ?thesis .
qed

section \<open>The depth bound of JSON_parse is never reached\<close>

text \<open>
  A parse that succeeds with some bound on the depth of the calls succeeds, with the
  same result, with every bound from twice the number of code units read on. So
  \<open>JSON_parse\<close> accepts a text exactly if the parser accepts it with some bound: the
  bound \<open>enough_depth\<close> never turns a text down.
\<close>

lemma parse_string_body_shorter: "parse_string_body acc s = Some (str, r) \<Longrightarrow> length r < length s"
proof (induction acc s rule: parse_string_body.induct)
  case (1 acc)
  then show ?case by simp
next
  case (2 acc c cs)
  show ?case
  proof (cases "c = 34")
    case True
    with "2.prems" show ?thesis by simp
  next
    case n34: False
    show ?thesis
    proof (cases "c = 92")
      case True
      with n34 "2.prems" obtain e es where es: "cs = e # es" by (auto split: list.splits)
      show ?thesis
      proof (cases "e = 117")
        case e117: True
        with n34 True es "2.prems" obtain u where u: "hex4 es = Some u"
          and rec: "parse_string_body (acc @ [u]) (drop 4 es) = Some (str, r)"
          by (auto split: option.splits)
        from "2.IH"(1)[OF n34 True es e117 u rec] es show ?thesis by simp
      next
        case e117: False
        with n34 True es "2.prems" obtain u where u: "unescape e = Some u"
          and rec: "parse_string_body (acc @ [u]) es = Some (str, r)"
          by (auto split: option.splits)
        from "2.IH"(2)[OF n34 True es e117 u rec] es show ?thesis by simp
      qed
    next
      case n92: False
      with n34 "2.prems" have ge: "\<not> c < 32" and rec: "parse_string_body (acc @ [c]) cs = Some (str, r)"
        by (auto split: if_splits)
      from "2.IH"(3)[OF n34 n92 ge rec] show ?thesis by simp
    qed
  qed
qed

lemma parse_elements_enough:
  assumes IHv: "\<And>s v r m. parse_value n s = Some (v, r) \<Longrightarrow> 2 * length s \<le> m + 1 + 2 * length r
                  \<Longrightarrow> parse_value m s = Some (v, r)"
    and IHe: "\<And>acc s v r m. parse_elements n acc s = Some (v, r) \<Longrightarrow> 2 * length s \<le> m + 2 + 2 * length r
                  \<Longrightarrow> parse_elements m acc s = Some (v, r)"
    and pe: "parse_elements (Suc n) acc s = Some (v, r)"
    and b: "2 * length s \<le> m + 2 + 2 * length r"
  shows "parse_elements m acc s = Some (v, r)"
proof -
  from pe obtain v' r1 where 1: "parse_value n s = Some (v', r1)" by (auto split: option.splits)
  with pe obtain c r' where 2: "skip_ws r1 = c # r'" by (auto split: list.splits)
  have l1: "length r1 < length s" using parse_value_shorter[OF 1] .
  have l2: "Suc (length r') \<le> length r1" using skip_ws_length[of r1] 2 by simp
  from 1 2 pe consider (comma) "c = 44" "parse_elements n (acc @ [v']) r' = Some (v, r)"
    | (closing) "c = 93" "r = r'"
    by (auto split: if_splits)
  then show ?thesis
  proof cases
    case comma
    have l3: "length r < length r'" using parse_elements_shorter[OF comma(2)] .
    from b l1 l2 l3 obtain m' where m: "m = Suc m'" by (cases m) auto
    have "parse_value m' s = Some (v', r1)" using l1 l2 l3 b m by (intro IHv[OF 1]) arith
    moreover have "parse_elements m' (acc @ [v']) r' = Some (v, r)"
      using l1 l2 l3 b m by (intro IHe[OF comma(2)]) arith
    ultimately show ?thesis using 2 comma(1) m by simp
  next
    case closing
    from b l1 l2 closing obtain m' where m: "m = Suc m'" by (cases m) auto
    have "parse_value m' s = Some (v', r1)" using l1 l2 closing b m by (intro IHv[OF 1]) arith
    then show ?thesis using 1 2 closing m pe by simp
  qed
qed

lemma parse_members_enough:
  assumes IHv: "\<And>s v r m. parse_value n s = Some (v, r) \<Longrightarrow> 2 * length s \<le> m + 1 + 2 * length r
                  \<Longrightarrow> parse_value m s = Some (v, r)"
    and IHm: "\<And>ms s v r m. parse_members n ms s = Some (v, r) \<Longrightarrow> 2 * length s \<le> m + 2 + 2 * length r
                  \<Longrightarrow> parse_members m ms s = Some (v, r)"
    and pm: "parse_members (Suc n) ms s = Some (v, r)"
    and b: "2 * length s \<le> m + 2 + 2 * length r"
  shows "parse_members m ms s = Some (v, r)"
proof -
  from pm obtain c t where 1: "skip_ws s = c # t" by (auto split: list.splits)
  with pm have c: "c = 34" by (auto split: if_splits)
  with 1 pm obtain k r1 where 2: "parse_string_body [] t = Some (k, r1)" by (auto split: option.splits)
  with 1 c pm obtain d r2 where 3: "skip_ws r1 = d # r2" by (auto split: list.splits)
  with 1 2 c pm have d: "d = 58" by (auto split: if_splits)
  with 1 2 3 c pm obtain v' r3 where 4: "parse_value n r2 = Some (v', r3)" by (auto split: option.splits)
  with 1 2 3 c d pm obtain e r4 where 5: "skip_ws r3 = e # r4" by (auto split: list.splits)
  have l1: "Suc (length t) \<le> length s" using skip_ws_length[of s] 1 by simp
  have l2: "length r1 < length t" using parse_string_body_shorter[OF 2] .
  have l3: "Suc (length r2) \<le> length r1" using skip_ws_length[of r1] 3 by simp
  have l4: "length r3 < length r2" using parse_value_shorter[OF 4] .
  have l5: "Suc (length r4) \<le> length r3" using skip_ws_length[of r3] 5 by simp
  from 1 2 3 4 5 c d pm consider (comma) "e = 44" "parse_members n (AList.update k v' ms) r4 = Some (v, r)"
    | (closing) "e = 125" "r = r4"
    by (auto split: if_splits)
  then show ?thesis
  proof cases
    case comma
    have l6: "length r < length r4" using parse_members_shorter[OF comma(2)] .
    from b l1 l2 l3 l4 l5 l6 obtain m' where m: "m = Suc m'" by (cases m) auto
    have "parse_value m' r2 = Some (v', r3)" using l1 l2 l3 l4 l5 l6 b m by (intro IHv[OF 4]) arith
    moreover have "parse_members m' (AList.update k v' ms) r4 = Some (v, r)"
      using l1 l2 l3 l4 l5 l6 b m by (intro IHm[OF comma(2)]) arith
    ultimately show ?thesis using 1 2 3 5 c d comma(1) m by simp
  next
    case closing
    from b l1 l2 l3 l4 l5 closing obtain m' where m: "m = Suc m'" by (cases m) auto
    have "parse_value m' r2 = Some (v', r3)" using l1 l2 l3 l4 l5 closing b m by (intro IHv[OF 4]) arith
    then show ?thesis using 1 2 3 4 5 c d closing m pm by simp
  qed
qed

lemma parse_value_enough:
  assumes IHe: "\<And>acc s v r m. parse_elements n acc s = Some (v, r) \<Longrightarrow> 2 * length s \<le> m + 2 + 2 * length r
                  \<Longrightarrow> parse_elements m acc s = Some (v, r)"
    and IHm: "\<And>ms s v r m. parse_members n ms s = Some (v, r) \<Longrightarrow> 2 * length s \<le> m + 2 + 2 * length r
                  \<Longrightarrow> parse_members m ms s = Some (v, r)"
    and pv: "parse_value (Suc n) s = Some (v, r)"
    and b: "2 * length s \<le> m + 1 + 2 * length r"
  shows "parse_value m s = Some (v, r)"
proof -
  from pv obtain c t where 1: "skip_ws s = c # t" by (auto split: list.splits)
  have l0: "length r < length s" using parse_value_shorter[OF pv] .
  with b obtain m' where m: "m = Suc m'" by (cases m) auto
  have l1: "Suc (length t) \<le> length s" using skip_ws_length[of s] 1 by simp
  show ?thesis
  proof (cases "c = 123")
    case True
    with 1 pv obtain d t' where 2: "skip_ws t = d # t'" by (auto split: list.splits)
    have l2: "Suc (length t') \<le> length t" using skip_ws_length[of t] 2 by simp
    show ?thesis
    proof (cases "d = 125")
      case True
      with 1 2 \<open>c = 123\<close> pv m show ?thesis by simp
    next
      case False
      with 1 2 \<open>c = 123\<close> pv have pm: "parse_members n [] (d # t') = Some (v, r)" by simp
      have "parse_members m' [] (d # t') = Some (v, r)"
        using l1 l2 b m by (intro IHm[OF pm]) simp
      with 1 2 \<open>c = 123\<close> False m show ?thesis by simp
    qed
  next
    case n123: False
    show ?thesis
    proof (cases "c = 91")
      case True
      with 1 pv obtain d t' where 2: "skip_ws t = d # t'" by (auto split: list.splits)
      have l2: "Suc (length t') \<le> length t" using skip_ws_length[of t] 2 by simp
      show ?thesis
      proof (cases "d = 93")
        case True
        with 1 2 \<open>c = 91\<close> pv m show ?thesis by simp
      next
        case False
        with 1 2 \<open>c = 91\<close> pv have pe: "parse_elements n [] (d # t') = Some (v, r)" by simp
        have "parse_elements m' [] (d # t') = Some (v, r)"
          using l1 l2 b m by (intro IHe[OF pe]) simp
        with 1 2 \<open>c = 91\<close> False m show ?thesis by simp
      qed
    next
      case False
      with 1 n123 pv m show ?thesis by simp
    qed
  qed
qed

lemma parse_enough:
  "(\<forall>s v r m. parse_value n s = Some (v, r) \<and> 2 * length s \<le> m + 1 + 2 * length r
       \<longrightarrow> parse_value m s = Some (v, r))
   \<and> (\<forall>acc s v r m. parse_elements n acc s = Some (v, r) \<and> 2 * length s \<le> m + 2 + 2 * length r
       \<longrightarrow> parse_elements m acc s = Some (v, r))
   \<and> (\<forall>ms s v r m. parse_members n ms s = Some (v, r) \<and> 2 * length s \<le> m + 2 + 2 * length r
       \<longrightarrow> parse_members m ms s = Some (v, r))"
proof (induction n)
  case 0
  show ?case by simp
next
  case (Suc n)
  then have IHv: "\<And>s v r m. parse_value n s = Some (v, r) \<Longrightarrow> 2 * length s \<le> m + 1 + 2 * length r
                  \<Longrightarrow> parse_value m s = Some (v, r)"
    and IHe: "\<And>acc s v r m. parse_elements n acc s = Some (v, r) \<Longrightarrow> 2 * length s \<le> m + 2 + 2 * length r
                  \<Longrightarrow> parse_elements m acc s = Some (v, r)"
    and IHm: "\<And>ms s v r m. parse_members n ms s = Some (v, r) \<Longrightarrow> 2 * length s \<le> m + 2 + 2 * length r
                  \<Longrightarrow> parse_members m ms s = Some (v, r)"
    by blast+
  have "parse_value m s = Some (v, r)"
    if "parse_value (Suc n) s = Some (v, r)" "2 * length s \<le> m + 1 + 2 * length r" for s v r m
    using IHe IHm that by (rule parse_value_enough)
  moreover have "parse_elements m acc s = Some (v, r)"
    if "parse_elements (Suc n) acc s = Some (v, r)" "2 * length s \<le> m + 2 + 2 * length r" for acc s v r m
    using IHv IHe that by (rule parse_elements_enough)
  moreover have "parse_members m ms s = Some (v, r)"
    if "parse_members (Suc n) ms s = Some (v, r)" "2 * length s \<le> m + 2 + 2 * length r" for ms s v r m
    using IHv IHm that by (rule parse_members_enough)
  ultimately show ?case by blast
qed

lemma enough_depth_eq: "enough_depth s = 2 * length s + 1"
  by (induction s) auto

lemma JSON_parse_iff:
  "JSON_parse s = Inr v \<longleftrightarrow> (\<exists>n r. parse_value n s = Some (v, r) \<and> skip_ws r = [])"
proof
  assume "JSON_parse s = Inr v"
  then obtain r where "parse_value (enough_depth s) s = Some (v, r)" "skip_ws r = []"
    by (auto simp: JSON_parse_def split: option.splits if_splits)
  then show "\<exists>n r. parse_value n s = Some (v, r) \<and> skip_ws r = []" by blast
next
  assume "\<exists>n r. parse_value n s = Some (v, r) \<and> skip_ws r = []"
  then obtain n r where 1: "parse_value n s = Some (v, r)" and 2: "skip_ws r = []" by blast
  have "2 * length s \<le> enough_depth s + 1 + 2 * length r" by (simp add: enough_depth_eq)
  with parse_enough[of n] 1 have "parse_value (enough_depth s) s = Some (v, r)" by blast
  with 2 show "JSON_parse s = Inr v" by (simp add: JSON_parse_def)
qed

section \<open>Evaluation on concrete texts\<close>

lemmas fence_eval = tagged_open_def untagged_open_def fence_close_def js_def
lemmas regex_eval = regex_exec_def exec_at_def
lemmas json_eval = JSON_parse_def skip_ws_def is_json_ws_def parse_number_def parse_sign_def
  parse_int_part_def parse_frac_part_def parse_exp_part_def scale10_def is_digit_def digits_value_def
  hex4_def hex_value_def unescape_def

lemmas strip_eval = strip_block_def replace_first_with_empty_def trim_def is_js_space_def

lemma strip_block_example:
  "strip_block (js ''Report:\<newline>```json\<newline>{\"kpIndex\":5,\"forecast\":[]}\<newline>```'') = js ''Report:''"
  by (simp add: strip_eval regex_eval js_def)

lemma getAI_live: "getAI (live_platform reply) = Some (GoogleGenAI (js ''test-key''))"
  by (simp add: getAI_def live_platform_def js_def)

lemmas shape_eval = is_WeatherReport_def field_def is_number_def is_text_def is_optional_text_def
  is_score_def is_visibility_def is_detection_def is_flare_def is_forecast_point_def is_forecast_def

lemma MOCK_WEATHER_DATA_shape: "is_WeatherReport (MOCK_WEATHER_DATA now)"
  by (simp add: MOCK_WEATHER_DATA_def shape_eval js_def)

lemma MOCK_WEATHER_DATA_locationName:
  "field ''locationName'' (MOCK_WEATHER_DATA now) = Some (JStr (js ''Simulated Sector (Demo)''))"
  by (simp add: MOCK_WEATHER_DATA_def field_def js_def)

lemma simulated_title: "sublist (js ''Simulated'') (js ''NOAA Space Weather (Simulated)'')"
  by (simp add: js_def sublist_Cons_right)

lemma fetchSpaceWeather_live_reply:
  "fetchSpaceWeather (live_platform (reply_with t)) coords =
     (case extractJson JSON_parse t of
        Inl e \<Rightarrow> Rejected e
      | Inr v \<Rightarrow> Resolved 0 \<lparr>data = v, rawText = strip_block t, sources = []\<rparr>)"
proof -
  have "generateContent (live_platform (reply_with t)) ai (ForecastRequest coords)
        = Inr \<lparr>response_text = Some t, candidates = None\<rparr>" for ai
    by (simp add: live_platform_def reply_with_def)
  moreover have "json_parser (live_platform (reply_with t)) = JSON_parse"
    by (simp add: live_platform_def)
  ultimately show ?thesis
    by (simp add: fetchSpaceWeather_def getAI_live text_of_def chunks_of_def mappedSources_def
        split: sum.splits)
qed

lemma analyzeSkyPhoto_live_reply:
  "analyzeSkyPhoto (live_platform (reply_with t)) img dev =
     (case JSON_parse t of
        Inr v \<Rightarrow> Resolved 0 v
      | Inl e \<Rightarrow>
          (case extractJson JSON_parse t of
             Inr v \<Rightarrow> Resolved 0 v
           | Inl e' \<Rightarrow> Resolved 0 JNull))"
proof -
  have "generateContent (live_platform (reply_with t)) ai (PhotoRequest img dev)
        = Inr \<lparr>response_text = Some t, candidates = None\<rparr>" for ai
    by (simp add: live_platform_def reply_with_def)
  moreover have "json_parser (live_platform (reply_with t)) = JSON_parse"
    by (simp add: live_platform_def)
  ultimately show ?thesis
    by (simp add: analyzeSkyPhoto_def getAI_live text_of_def split: sum.splits)
qed

lemma MOCK_PHOTO_ANALYSIS_shape: "is_PhotoAnalysis MOCK_PHOTO_ANALYSIS"
  by (simp add: MOCK_PHOTO_ANALYSIS_def is_PhotoAnalysis_def is_settings_def is_checklist_def
      is_text_value_def is_text_def field_def js_def)

section \<open>The properties of the specification\<close>

text \<open>
  C1. The claim that \<open>extractJson\<close> returns the decoded content of a tagged block
  wherever the text holds one with valid JSON fails: where an earlier tagged block has a
  content that is not JSON, the later valid block is not read and the result is
  \<^verbatim>\<open>null\<close>.
\<close>

theorem later_valid_block_counterexample:
  "block_in tagged_open (js ''{}'') (js ''```json\<newline>bad\<newline>```\<newline>```json\<newline>{}\<newline>```'')
   \<and> JSON_parse (js ''{}'') = Inr (JObj [])
   \<and> extractJson JSON_parse (js ''```json\<newline>bad\<newline>```\<newline>```json\<newline>{}\<newline>```'') = Inr JNull
   \<and> JNull \<noteq> JObj []"
  by (simp add: block_in_def sublist_Cons_right extractJson_def jsonMatch_def regex_eval fence_eval json_eval)

text \<open>
  C1, as amended. For every input text whose first tagged fenced block (the opening
  fence \<^verbatim>\<open>```json\<close> and a line feed, with no such opening fence before it, then the
  content, then a line feed and \<^verbatim>\<open>```\<close>) has a content that is valid JSON,
  \<open>extractJson\<close> returns the decoded content, whatever follows the block. The example of
  the specification, the text \<^verbatim>\<open>Report:\n```json\n{"kpIndex":5,"forecast":[]}\n```\<close>,
  gives \<^verbatim>\<open>{kpIndex:5, forecast:[]}\<close>.
\<close>

theorem first_tagged_block_decoded:
  assumes "\<not> sublist tagged_open p" and "JSON_parse c = Inr v"
  shows "extractJson JSON_parse (p @ tagged_open @ c @ fence_close @ r) = Inr v"
  using extractJson_first_tagged[OF assms(1) JSON_parse_no_fence[OF assms(2)], of JSON_parse r] assms(2)
  by simp

theorem first_tagged_block_decoded_witness:
  "extractJson JSON_parse (js ''Report:\<newline>```json\<newline>{\"kpIndex\":5,\"forecast\":[]}\<newline>```'')
     = Inr (JObj [(js ''kpIndex'', JNum 5), (js ''forecast'', JArr [])])"
proof -
  have t: "js ''Report:\<newline>```json\<newline>{\"kpIndex\":5,\"forecast\":[]}\<newline>```''
           = js ''Report:\<newline>'' @ tagged_open @ js ''{\"kpIndex\":5,\"forecast\":[]}'' @ fence_close @ []"
    by (simp add: fence_eval)
  have n: "\<not> sublist tagged_open (js ''Report:\<newline>'')"
    by (simp add: fence_eval sublist_Cons_right)
  have j: "JSON_parse (js ''{\"kpIndex\":5,\"forecast\":[]}'')
           = Inr (JObj [(js ''kpIndex'', JNum 5), (js ''forecast'', JArr [])])"
    by (simp add: json_eval js_def)
  from first_tagged_block_decoded[OF n j, of "[]"] t show ?thesis by simp
qed

text \<open>
  C2. The claim that \<open>extractJson\<close> returns \<^verbatim>\<open>null\<close> wherever the text contains a
  fenced block whose content cannot be parsed fails: where a tagged block with valid
  content comes first, that block is read and its content returned, and the later block
  that cannot be parsed is never looked at.
\<close>

theorem unread_bad_block_counterexample:
  "block_in tagged_open (js ''bad'') (js ''```json\<newline>{}\<newline>```\<newline>```json\<newline>bad\<newline>```'')
   \<and> JSON_parse (js ''bad'') = Inl SyntaxError
   \<and> extractJson JSON_parse (js ''```json\<newline>{}\<newline>```\<newline>```json\<newline>bad\<newline>```'') = Inr (JObj [])
   \<and> JObj [] \<noteq> JNull"
  by (simp add: block_in_def sublist_Cons_right extractJson_def jsonMatch_def regex_eval fence_eval json_eval)

text \<open>
  C2, as amended. For every input text, \<open>extractJson\<close> never raises: its result is always
  a returned value. The result is \<^verbatim>\<open>null\<close> if the text holds no fenced block, if every
  fenced block it holds (tagged or untagged) has a content that \<^verbatim>\<open>JSON.parse\<close> rejects,
  or if the block the function reads (the first tagged block, if there is one, else the
  first untagged one) has such a content, whatever else the text holds.
\<close>

theorem extractJson_never_raises:
  "(\<exists>v. extractJson parse text = Inr v)
   \<and> ((\<forall>c. block_in tagged_open c text \<or> block_in untagged_open c text \<longrightarrow> (\<exists>e. parse c = Inl e))
        \<longrightarrow> extractJson parse text = Inr JNull)
   \<and> (\<forall>p c r e. text = p @ tagged_open @ c @ fence_close @ r \<and> \<not> sublist tagged_open p
         \<and> \<not> sublist fence_close c \<and> parse c = Inl e
        \<longrightarrow> extractJson parse text = Inr JNull)
   \<and> (\<forall>p c r e. text = p @ untagged_open @ c @ fence_close @ r
         \<and> (\<forall>c'. \<not> block_in tagged_open c' text) \<and> \<not> sublist untagged_open p
         \<and> \<not> sublist fence_close c \<and> parse c = Inl e
        \<longrightarrow> extractJson parse text = Inr JNull)
   \<and> (\<forall>m e. jsonMatch text = Some m \<and> parse (group1 m) = Inl e
        \<longrightarrow> extractJson parse text = Inr JNull)"
proof (intro conjI allI impI)
  fix p c r e
  assume "text = p @ untagged_open @ c @ fence_close @ r
         \<and> (\<forall>c'. \<not> block_in tagged_open c' text) \<and> \<not> sublist untagged_open p
         \<and> \<not> sublist fence_close c \<and> parse c = Inl e"
  then have h: "\<forall>c'. \<not> block_in tagged_open c' (p @ untagged_open @ c @ fence_close @ r)"
    "\<not> sublist untagged_open p" "\<not> sublist fence_close c"
    and pe: "parse c = Inl e" and t: "text = p @ untagged_open @ c @ fence_close @ r"
    by auto
  from extractJson_first_untagged[OF h, of parse] pe t
  show "extractJson parse text = Inr JNull" by simp
next
  fix m e
  assume "jsonMatch text = Some m \<and> parse (group1 m) = Inl e"
  then show "extractJson parse text = Inr JNull" by (simp add: extractJson_def)
next
  show "\<exists>v. extractJson parse text = Inr v"
    using extractJson_cases[of parse "text"] by blast
next
  assume a: "\<forall>c. block_in tagged_open c text \<or> block_in untagged_open c text \<longrightarrow> (\<exists>e. parse c = Inl e)"
  show "extractJson parse text = Inr JNull"
  proof (cases "jsonMatch text")
    case None
    then show ?thesis by (simp add: extractJson_def)
  next
    case (Some m)
    from jsonMatch_block[OF Some] a obtain e where "parse (group1 m) = Inl e" by blast
    with Some show ?thesis by (simp add: extractJson_def)
  qed
next
  fix p c r e
  assume "text = p @ tagged_open @ c @ fence_close @ r \<and> \<not> sublist tagged_open p
         \<and> \<not> sublist fence_close c \<and> parse c = Inl e"
  then show "extractJson parse text = Inr JNull"
    using extractJson_first_tagged[of p c parse r] by simp
qed

theorem extractJson_never_raises_witness:
  "extractJson JSON_parse (js ''hello'') = Inr JNull
   \<and> extractJson JSON_parse (js ''```json\<newline>bad\<newline>```'') = Inr JNull
   \<and> extractJson JSON_parse (js ''```\<newline>bad\<newline>```'') = Inr JNull"
proof (intro conjI)
  have "\<not> block_in tagged_open c (js ''hello'')" and "\<not> block_in untagged_open c (js ''hello'')" for c
    unfolding block_in_def by (auto dest!: sublist_length_le simp: fence_eval)
  then have "\<forall>c. block_in tagged_open c (js ''hello'') \<or> block_in untagged_open c (js ''hello'')
              \<longrightarrow> (\<exists>e. JSON_parse c = Inl e)"
    by blast
  with extractJson_never_raises[of JSON_parse "js ''hello''"]
  show "extractJson JSON_parse (js ''hello'') = Inr JNull" by blast
next
  have t: "js ''```json\<newline>bad\<newline>```'' = [] @ tagged_open @ js ''bad'' @ fence_close @ []"
    by (simp add: fence_eval)
  have "\<not> sublist tagged_open []" by (simp add: fence_eval)
  moreover have "\<not> sublist fence_close (js ''bad'')" by (simp add: fence_eval sublist_Cons_right)
  moreover have "JSON_parse (js ''bad'') = Inl SyntaxError" by (simp add: json_eval js_def)
  ultimately show "extractJson JSON_parse (js ''```json\<newline>bad\<newline>```'') = Inr JNull"
    using extractJson_never_raises[of JSON_parse "js ''```json\<newline>bad\<newline>```''"] t by blast
next
  have t: "js ''```\<newline>bad\<newline>```'' = [] @ untagged_open @ js ''bad'' @ fence_close @ []"
    by (simp add: fence_eval)
  have "\<not> block_in tagged_open c' (js ''```\<newline>bad\<newline>```'')" for c'
    unfolding block_in_def by (auto dest!: sublist_length_le simp: fence_eval)
  then have nt: "\<forall>c'. \<not> block_in tagged_open c' (js ''```\<newline>bad\<newline>```'')" by blast
  have n1: "\<not> sublist untagged_open []" by (simp add: fence_eval)
  have n2: "\<not> sublist fence_close (js ''bad'')" by (simp add: fence_eval sublist_Cons_right)
  have f: "JSON_parse (js ''bad'') = Inl SyntaxError" by (simp add: json_eval js_def)
  from extractJson_never_raises[of JSON_parse "js ''```\<newline>bad\<newline>```''"] t nt n1 n2 f
  show "extractJson JSON_parse (js ''```\<newline>bad\<newline>```'') = Inr JNull" by blast
qed

text \<open>
  C3. For every input text that holds a tagged fenced block, \<open>extractJson\<close> parses the
  content of a tagged block (the one the tagged pattern finds) and nothing else, so an
  untagged block in the same text, before or after it, is never the one parsed: the
  tagged pattern takes precedence over the untagged one.
\<close>

theorem tagged_block_takes_precedence:
  assumes "block_in tagged_open c text"
  shows "\<exists>m. regex_exec tagged_open fence_close text = Some m
             \<and> block_in tagged_open (group1 m) text
             \<and> extractJson parse text = (case parse (group1 m) of Inr v \<Rightarrow> Inr v | Inl e \<Rightarrow> Inr JNull)"
proof -
  from assms obtain m where m: "regex_exec tagged_open fence_close text = Some m"
    using regex_exec_complete[of tagged_open c fence_close "text"] by (auto simp: block_in_def)
  from regex_exec_block[OF m] extractJson_tagged[OF m] m show ?thesis by blast
qed

theorem tagged_block_takes_precedence_witness:
  "block_in tagged_open (js ''{\"a\":1}'') (js ''```json\<newline>{\"a\":1}\<newline>```\<newline>```\<newline>{\"b\":2}\<newline>```'')
   \<and> block_in untagged_open (js ''{\"b\":2}'') (js ''```json\<newline>{\"a\":1}\<newline>```\<newline>```\<newline>{\"b\":2}\<newline>```'')
   \<and> extractJson JSON_parse (js ''```json\<newline>{\"a\":1}\<newline>```\<newline>```\<newline>{\"b\":2}\<newline>```'')
       = Inr (JObj [(js ''a'', JNum 1)])"
proof -
  let ?T = "js ''```json\<newline>{\"a\":1}\<newline>```\<newline>```\<newline>{\"b\":2}\<newline>```''"
  have b1: "block_in tagged_open (js ''{\"a\":1}'') ?T"
    by (simp add: block_in_def fence_eval sublist_Cons_right)
  have b2: "block_in untagged_open (js ''{\"b\":2}'') ?T"
    by (simp add: block_in_def fence_eval sublist_Cons_right)
  from tagged_block_takes_precedence[OF b1, of JSON_parse]
  obtain m where m: "regex_exec tagged_open fence_close ?T = Some m"
    and e: "extractJson JSON_parse ?T = (case JSON_parse (group1 m) of Inr v \<Rightarrow> Inr v | Inl e \<Rightarrow> Inr JNull)"
    by blast
  have "regex_exec tagged_open fence_close ?T
        = Some \<lparr>index = 0, group0 = js ''```json\<newline>{\"a\":1}\<newline>```'', group1 = js ''{\"a\":1}''\<rparr>"
    by (simp add: regex_eval fence_eval)
  with m have "group1 m = js ''{\"a\":1}''" by auto
  with e have "extractJson JSON_parse ?T = Inr (JObj [(js ''a'', JNum 1)])"
    by (simp add: json_eval js_def)
  with b1 b2 show ?thesis by blast
qed

text \<open>
  C4. Evaluation of \<open>fetchSpaceWeather\<close> where the raw text keeps the fenced block. For
  a reply whose block is untagged, \<open>extractJson\<close> reads the data from the block, and the
  raw text is the whole reply, block included: \<^verbatim>\<open>replace\<close> looks for \<^verbatim>\<open>```json\<close> only.
  For a reply with the same tagged block twice, the first is cut out and the second,
  equal to the one the data was read from, stays.
\<close>

theorem fenced_block_left_in_rawText:
  "fetchSpaceWeather
      (live_platform (reply_with (js ''Report:\<newline>```\<newline>{\"kpIndex\":5,\"forecast\":[]}\<newline>```'')))
      \<lparr>latitude = 641265 / 10000, longitude = - (218174 / 10000)\<rparr>
     = Resolved 0
         \<lparr>data = JObj [(js ''kpIndex'', JNum 5), (js ''forecast'', JArr [])],
          rawText = js ''Report:\<newline>```\<newline>{\"kpIndex\":5,\"forecast\":[]}\<newline>```'',
          sources = []\<rparr>
   \<and> sublist (untagged_open @ js ''{\"kpIndex\":5,\"forecast\":[]}'' @ fence_close)
         (js ''Report:\<newline>```\<newline>{\"kpIndex\":5,\"forecast\":[]}\<newline>```'')
   \<and> fetchSpaceWeather
      (live_platform (reply_with (js ''```json\<newline>{\"kp\":1}\<newline>```\<newline>```json\<newline>{\"kp\":1}\<newline>```'')))
      \<lparr>latitude = 641265 / 10000, longitude = - (218174 / 10000)\<rparr>
     = Resolved 0
         \<lparr>data = JObj [(js ''kp'', JNum 1)],
          rawText = js ''```json\<newline>{\"kp\":1}\<newline>```'',
          sources = []\<rparr>"
proof (intro conjI)
  let ?t = "js ''Report:\<newline>```\<newline>{\"kpIndex\":5,\"forecast\":[]}\<newline>```''"
  have "extractJson JSON_parse ?t = Inr (JObj [(js ''kpIndex'', JNum 5), (js ''forecast'', JArr [])])"
    by (simp add: extractJson_def jsonMatch_def regex_eval fence_eval json_eval)
  moreover have "strip_block ?t = ?t"
    by (simp add: strip_eval regex_eval js_def)
  ultimately show "fetchSpaceWeather (live_platform (reply_with ?t))
      \<lparr>latitude = 641265 / 10000, longitude = - (218174 / 10000)\<rparr>
     = Resolved 0
         \<lparr>data = JObj [(js ''kpIndex'', JNum 5), (js ''forecast'', JArr [])],
          rawText = ?t, sources = []\<rparr>"
    by (simp add: fetchSpaceWeather_live_reply)
next
  show "sublist (untagged_open @ js ''{\"kpIndex\":5,\"forecast\":[]}'' @ fence_close)
         (js ''Report:\<newline>```\<newline>{\"kpIndex\":5,\"forecast\":[]}\<newline>```'')"
    by (simp add: fence_eval sublist_Cons_right)
next
  let ?t = "js ''```json\<newline>{\"kp\":1}\<newline>```\<newline>```json\<newline>{\"kp\":1}\<newline>```''"
  have "extractJson JSON_parse ?t = Inr (JObj [(js ''kp'', JNum 1)])"
    by (simp add: extractJson_def jsonMatch_def regex_eval fence_eval json_eval)
  moreover have "strip_block ?t = js ''```json\<newline>{\"kp\":1}\<newline>```''"
    by (simp add: strip_eval regex_eval js_def)
  ultimately show "fetchSpaceWeather (live_platform (reply_with ?t))
      \<lparr>latitude = 641265 / 10000, longitude = - (218174 / 10000)\<rparr>
     = Resolved 0
         \<lparr>data = JObj [(js ''kp'', JNum 1)],
          rawText = js ''```json\<newline>{\"kp\":1}\<newline>```'', sources = []\<rparr>"
    by (simp add: fetchSpaceWeather_live_reply)
qed

text \<open>
  C5. The claim that every outcome of \<open>extractJson\<close> other than \<^verbatim>\<open>null\<close> has the shape
  of a weather report fails: the content \<^verbatim>\<open>[]\<close> of a tagged block is returned as the
  empty array.
\<close>

theorem extractJson_unchecked_shape_counterexample:
  "extractJson JSON_parse (js ''```json\<newline>[]\<newline>```'') = Inr (JArr [])
   \<and> JArr [] \<noteq> JNull \<and> \<not> is_WeatherReport (JArr [])"
  by (simp add: extractJson_def jsonMatch_def regex_eval fence_eval json_eval
      is_WeatherReport_def field_def is_number_def)

text \<open>
  C5, as amended. Every outcome of \<open>extractJson\<close> other than \<^verbatim>\<open>null\<close> is the value
  \<^verbatim>\<open>JSON.parse\<close> decoded from the content of a fenced block of the text, tagged or
  untagged; it can be any JSON value, its shape is not checked.
\<close>

theorem extractJson_nonnull_is_parsed_block:
  assumes "extractJson parse text = Inr v" and "v \<noteq> JNull"
  shows "\<exists>c. (block_in tagged_open c text \<or> block_in untagged_open c text) \<and> parse c = Inr v"
proof -
  from extractJson_cases[of parse "text"] assms
  obtain m where "jsonMatch text = Some m" "parse (group1 m) = Inr v" by auto
  with jsonMatch_block show ?thesis by blast
qed

theorem extractJson_nonnull_is_parsed_block_witness:
  "\<exists>c. (block_in tagged_open c (js ''```json\<newline>[]\<newline>```'')
         \<or> block_in untagged_open c (js ''```json\<newline>[]\<newline>```''))
       \<and> JSON_parse c = Inr (JArr [])"
proof -
  have "extractJson JSON_parse (js ''```json\<newline>[]\<newline>```'') = Inr (JArr [])"
    by (simp add: extractJson_def jsonMatch_def regex_eval fence_eval json_eval)
  from extractJson_nonnull_is_parsed_block[OF this] show ?thesis by simp
qed

text \<open>
  C6. Without a configured key (absent or empty), \<open>fetchSpaceWeather\<close> never fails: for
  every coordinates it resolves, after a delay of 1500 ms, to one fixed result that does
  not depend on the coordinates. Its data is the demonstration report, which has the shape
  of a weather report and the location name "Simulated Sector (Demo)"; its list of
  sources has exactly one entry, whose title contains "Simulated".
\<close>

theorem fallback_fetch_fixed_report:
  assumes "getAI p = None"
  shows "fetchSpaceWeather p coords =
           Resolved 1500
             \<lparr>data = MOCK_WEATHER_DATA (loaded_at p),
              rawText = MOCK_summary,
              sources = [\<lparr>uri = Some (js ''https://www.swpc.noaa.gov/''),
                          title = Some (js ''NOAA Space Weather (Simulated)'')\<rparr>]\<rparr>
         \<and> (0::nat) < 1500
         \<and> is_WeatherReport (MOCK_WEATHER_DATA (loaded_at p))
         \<and> field ''locationName'' (MOCK_WEATHER_DATA (loaded_at p))
             = Some (JStr (js ''Simulated Sector (Demo)''))
         \<and> sublist (js ''Simulated'') (js ''NOAA Space Weather (Simulated)'')"
  using assms MOCK_WEATHER_DATA_shape MOCK_WEATHER_DATA_locationName simulated_title
  by (simp add: fetchSpaceWeather_def)

theorem fallback_fetch_fixed_report_witness:
  "\<exists>r. fetchSpaceWeather demo_platform \<lparr>latitude = 641265 / 10000, longitude = - (218174 / 10000)\<rparr>
          = Resolved 1500 r
       \<and> is_WeatherReport (data r)
       \<and> field ''locationName'' (data r) = Some (JStr (js ''Simulated Sector (Demo)''))
       \<and> (\<exists>s t. sources r = [s] \<and> title s = Some t \<and> sublist (js ''Simulated'') t)"
proof -
  have "getAI demo_platform = None" by (simp add: getAI_def demo_platform_def)
  from fallback_fetch_fixed_report[OF this] show ?thesis by simp
qed

text \<open>
  C7. Without a configured key, the session that \<open>createChatSession\<close> returns answers
  every message with the same fixed text, so the answers to any two messages are equal,
  and a send leaves everything outside it, any earlier transcript included, as it was.
\<close>

theorem fallback_chat_fixed_reply:
  assumes "getAI p = None"
  shows "sendMessage library_send (createChatSession p chats_create) message w
           = (Resolved 0 \<lparr>reply_text = DEMO_REPLY\<rparr>, w)
         \<and> fst (sendMessage library_send (createChatSession p chats_create) message w)
           = fst (sendMessage library_send (createChatSession p chats_create) message' w')"
  using assms by (simp add: createChatSession_def)

theorem fallback_chat_fixed_reply_witness:
  "sendMessage (\<lambda>h m w. (Rejected (ProviderError m), w @ [m]))
      (createChatSession demo_platform (\<lambda>ai. ())) (js ''Hi'') [js ''earlier turn'']
     = (Resolved 0 \<lparr>reply_text = DEMO_REPLY\<rparr>, [js ''earlier turn''])
   \<and> fst (sendMessage (\<lambda>h m w. (Rejected (ProviderError m), w @ [m]))
           (createChatSession demo_platform (\<lambda>ai. ())) (js ''Hi'') [js ''earlier turn''])
     = fst (sendMessage (\<lambda>h m w. (Rejected (ProviderError m), w @ [m]))
           (createChatSession demo_platform (\<lambda>ai. ())) (js ''Will I see aurora tonight?'') [])"
proof -
  have "getAI demo_platform = None" by (simp add: getAI_def demo_platform_def)
  from fallback_chat_fixed_reply[OF this, of "\<lambda>h m w. (Rejected (ProviderError m), w @ [m])" "\<lambda>ai. ()"
      "js ''Hi''" "[js ''earlier turn'']" "js ''Will I see aurora tonight?''" "[]"]
  show ?thesis .
qed

text \<open>
  C8. The claim that \<open>analyzeSkyPhoto\<close> collapses a malformed structure to \<^verbatim>\<open>null\<close>
  fails: a reply that parses is returned as it was decoded, whatever its structure. The
  reply \<^verbatim>\<open>{"cloudCover":"Clear"}\<close>, which lacks most of the fields of a photo analysis,
  comes back as that object.
\<close>

theorem wrong_shape_returned_counterexample:
  "analyzeSkyPhoto (live_platform (reply_with (js ''{\"cloudCover\":\"Clear\"}''))) (js ''AAAA'') (js ''Smartphone'')
     = Resolved 0 (JObj [(js ''cloudCover'', JStr (js ''Clear''))])
   \<and> JObj [(js ''cloudCover'', JStr (js ''Clear''))] \<noteq> JNull
   \<and> \<not> is_PhotoAnalysis (JObj [(js ''cloudCover'', JStr (js ''Clear''))])"
proof -
  have "JSON_parse (js ''{\"cloudCover\":\"Clear\"}'') = Inr (JObj [(js ''cloudCover'', JStr (js ''Clear''))])"
    by (simp add: json_eval js_def)
  then have "analyzeSkyPhoto (live_platform (reply_with (js ''{\"cloudCover\":\"Clear\"}''))) (js ''AAAA'') (js ''Smartphone'')
     = Resolved 0 (JObj [(js ''cloudCover'', JStr (js ''Clear''))])"
    by (simp add: analyzeSkyPhoto_live_reply)
  moreover have "\<not> is_PhotoAnalysis (JObj [(js ''cloudCover'', JStr (js ''Clear''))])"
    by (simp add: is_PhotoAnalysis_def is_text_def field_def js_def)
  ultimately show ?thesis by simp
qed

text \<open>
  C8, as amended. \<open>analyzeSkyPhoto\<close> never raises: its promise is always fulfilled. With
  a key, it is fulfilled with \<^verbatim>\<open>null\<close> whenever the call to the provider fails, and
  whenever the reply is neither a text that \<^verbatim>\<open>JSON.parse\<close> accepts nor a text with a
  fenced block of acceptable content (no block at all, every block rejected, or the first
  tagged block rejected). A reply that \<^verbatim>\<open>JSON.parse\<close> accepts, as a whole or in the
  block that \<open>extractJson\<close> reads, is returned as decoded: its structure is not checked.
\<close>

theorem analyzeSkyPhoto_null_on_failure:
  "(\<exists>d v. analyzeSkyPhoto p img dev = Resolved d v)
   \<and> (\<forall>ai e. getAI p = Some ai \<and> generateContent p ai (PhotoRequest img dev) = Inl e
        \<longrightarrow> analyzeSkyPhoto p img dev = Resolved 0 JNull)
   \<and> (\<forall>ai resp. getAI p = Some ai \<and> generateContent p ai (PhotoRequest img dev) = Inr resp
          \<and> (\<exists>e. json_parser p (text_of resp) = Inl e)
          \<and> (\<forall>c. block_in tagged_open c (text_of resp) \<or> block_in untagged_open c (text_of resp)
                 \<longrightarrow> (\<exists>e. json_parser p c = Inl e))
        \<longrightarrow> analyzeSkyPhoto p img dev = Resolved 0 JNull)
   \<and> (\<forall>ai resp pre c post. getAI p = Some ai \<and> generateContent p ai (PhotoRequest img dev) = Inr resp
          \<and> (\<exists>e. json_parser p (text_of resp) = Inl e)
          \<and> text_of resp = pre @ tagged_open @ c @ fence_close @ post
          \<and> \<not> sublist tagged_open pre \<and> \<not> sublist fence_close c \<and> (\<exists>e. json_parser p c = Inl e)
        \<longrightarrow> analyzeSkyPhoto p img dev = Resolved 0 JNull)
   \<and> (\<forall>ai resp v. getAI p = Some ai \<and> generateContent p ai (PhotoRequest img dev) = Inr resp
          \<and> json_parser p (text_of resp) = Inr v
        \<longrightarrow> analyzeSkyPhoto p img dev = Resolved 0 v)
   \<and> (\<forall>ai resp v. getAI p = Some ai \<and> generateContent p ai (PhotoRequest img dev) = Inr resp
          \<and> (\<exists>e. json_parser p (text_of resp) = Inl e)
          \<and> extractJson (json_parser p) (text_of resp) = Inr v
        \<longrightarrow> analyzeSkyPhoto p img dev = Resolved 0 v)"
proof (intro conjI allI impI)
  fix ai resp v
  assume "getAI p = Some ai \<and> generateContent p ai (PhotoRequest img dev) = Inr resp
          \<and> json_parser p (text_of resp) = Inr v"
  then show "analyzeSkyPhoto p img dev = Resolved 0 v"
    by (simp add: analyzeSkyPhoto_def)
next
  fix ai resp v
  assume "getAI p = Some ai \<and> generateContent p ai (PhotoRequest img dev) = Inr resp
          \<and> (\<exists>e. json_parser p (text_of resp) = Inl e)
          \<and> extractJson (json_parser p) (text_of resp) = Inr v"
  then show "analyzeSkyPhoto p img dev = Resolved 0 v"
    by (auto simp: analyzeSkyPhoto_def)
next
  show "\<exists>d v. analyzeSkyPhoto p img dev = Resolved d v"
    using extractJson_returns[of "json_parser p"]
    by (auto simp: analyzeSkyPhoto_def split: option.splits sum.splits)
next
  fix ai e
  assume "getAI p = Some ai \<and> generateContent p ai (PhotoRequest img dev) = Inl e"
  then show "analyzeSkyPhoto p img dev = Resolved 0 JNull"
    by (simp add: analyzeSkyPhoto_def)
next
  fix ai resp
  assume a: "getAI p = Some ai \<and> generateContent p ai (PhotoRequest img dev) = Inr resp
          \<and> (\<exists>e. json_parser p (text_of resp) = Inl e)
          \<and> (\<forall>c. block_in tagged_open c (text_of resp) \<or> block_in untagged_open c (text_of resp)
                 \<longrightarrow> (\<exists>e. json_parser p c = Inl e))"
  then have "extractJson (json_parser p) (text_of resp) = Inr JNull"
    by (intro extractJson_null_if_all_fail) blast
  with a show "analyzeSkyPhoto p img dev = Resolved 0 JNull"
    by (auto simp: analyzeSkyPhoto_def)
next
  fix ai resp pre c post
  assume a: "getAI p = Some ai \<and> generateContent p ai (PhotoRequest img dev) = Inr resp
          \<and> (\<exists>e. json_parser p (text_of resp) = Inl e)
          \<and> text_of resp = pre @ tagged_open @ c @ fence_close @ post
          \<and> \<not> sublist tagged_open pre \<and> \<not> sublist fence_close c \<and> (\<exists>e. json_parser p c = Inl e)"
  then have "extractJson (json_parser p) (text_of resp) = Inr JNull"
    using extractJson_first_tagged[of pre c "json_parser p" post] by auto
  with a show "analyzeSkyPhoto p img dev = Resolved 0 JNull"
    by (auto simp: analyzeSkyPhoto_def)
qed

theorem analyzeSkyPhoto_null_on_failure_witness:
  "analyzeSkyPhoto (live_platform (Inl (ProviderError (js ''503'')))) (js ''AAAA'') (js ''Smartphone'')
     = Resolved 0 JNull
   \<and> analyzeSkyPhoto (live_platform (reply_with (js ''The sky looks clear.''))) (js ''AAAA'') (js ''Smartphone'')
     = Resolved 0 JNull
   \<and> analyzeSkyPhoto (live_platform (reply_with (js ''```json\<newline>bad\<newline>```''))) (js ''AAAA'') (js ''Smartphone'')
     = Resolved 0 JNull"
proof (intro conjI)
  let ?p1 = "live_platform (Inl (ProviderError (js ''503'')))"
  have "generateContent ?p1 (GoogleGenAI (js ''test-key'')) (PhotoRequest (js ''AAAA'') (js ''Smartphone''))
        = Inl (ProviderError (js ''503''))"
    by (simp add: live_platform_def)
  with analyzeSkyPhoto_null_on_failure[of ?p1 "js ''AAAA''" "js ''Smartphone''"] getAI_live[of "Inl (ProviderError (js ''503''))"]
  show "analyzeSkyPhoto ?p1 (js ''AAAA'') (js ''Smartphone'') = Resolved 0 JNull" by blast
next
  let ?t = "js ''The sky looks clear.''"
  let ?r = "\<lparr>response_text = Some ?t, candidates = None\<rparr>"
  let ?p2 = "live_platform (reply_with ?t)"
  have g: "generateContent ?p2 (GoogleGenAI (js ''test-key'')) (PhotoRequest (js ''AAAA'') (js ''Smartphone'')) = Inr ?r"
    by (simp add: live_platform_def reply_with_def)
  have t: "text_of ?r = ?t" by (simp add: text_of_def)
  have j: "json_parser ?p2 = JSON_parse" by (simp add: live_platform_def)
  have f: "JSON_parse ?t = Inl SyntaxError" by (simp add: json_eval js_def)
  have "\<not> sublist fence_close ?t" by (simp add: fence_eval sublist_Cons_right)
  then have "\<forall>c. block_in tagged_open c ?t \<or> block_in untagged_open c ?t \<longrightarrow> (\<exists>e. JSON_parse c = Inl e)"
    using no_fence_no_block by blast
  with analyzeSkyPhoto_null_on_failure[of ?p2 "js ''AAAA''" "js ''Smartphone''"] getAI_live[of "reply_with ?t"] g t j f
  show "analyzeSkyPhoto ?p2 (js ''AAAA'') (js ''Smartphone'') = Resolved 0 JNull" by metis
next
  let ?t = "js ''```json\<newline>bad\<newline>```''"
  let ?r = "\<lparr>response_text = Some ?t, candidates = None\<rparr>"
  let ?p3 = "live_platform (reply_with ?t)"
  have g: "generateContent ?p3 (GoogleGenAI (js ''test-key'')) (PhotoRequest (js ''AAAA'') (js ''Smartphone'')) = Inr ?r"
    by (simp add: live_platform_def reply_with_def)
  have t: "text_of ?r = [] @ tagged_open @ js ''bad'' @ fence_close @ []" by (simp add: text_of_def fence_eval)
  have j: "json_parser ?p3 = JSON_parse" by (simp add: live_platform_def)
  have f: "JSON_parse (text_of ?r) = Inl SyntaxError" by (simp add: json_eval js_def text_of_def)
  have f': "JSON_parse (js ''bad'') = Inl SyntaxError" by (simp add: json_eval js_def)
  have n1: "\<not> sublist tagged_open []" by (simp add: fence_eval)
  have n2: "\<not> sublist fence_close (js ''bad'')" by (simp add: fence_eval sublist_Cons_right)
  from analyzeSkyPhoto_null_on_failure[of ?p3 "js ''AAAA''" "js ''Smartphone''"] getAI_live[of "reply_with ?t"] g t j f f' n1 n2
  show "analyzeSkyPhoto ?p3 (js ''AAAA'') (js ''Smartphone'') = Resolved 0 JNull" by metis
qed

text \<open>
  C9. With a key, a failure of the call to the provider makes \<open>fetchSpaceWeather\<close> fail
  as a whole: the promise is rejected with the very error of the provider. A reply of
  the provider whose grounding chunks can be mapped (each chunk an object, no \<^verbatim>\<open>web\<close>
  that is \<^verbatim>\<open>null\<close>) always gives a fulfilled promise, whatever \<^verbatim>\<open>JSON.parse\<close> does
  with the block; where the block cannot be parsed (or there is none) the data is
  \<^verbatim>\<open>null\<close>. Where the mapping of the chunks throws, that error rejects the promise.
\<close>

theorem fetchSpaceWeather_provider_failure_propagates:
  assumes "getAI p = Some ai"
  shows "(\<forall>e. generateContent p ai (ForecastRequest coords) = Inl e
            \<longrightarrow> fetchSpaceWeather p coords = Rejected e)
       \<and> (\<forall>resp mapped. generateContent p ai (ForecastRequest coords) = Inr resp
              \<and> mappedSources (chunks_of resp) = Inr mapped
            \<longrightarrow> (\<exists>r. fetchSpaceWeather p coords = Resolved 0 r
                      \<and> extractJson (json_parser p) (text_of resp) = Inr (data r)
                      \<and> rawText r = strip_block (text_of resp)
                      \<and> sources r = mapped))
       \<and> (\<forall>resp mapped. generateContent p ai (ForecastRequest coords) = Inr resp
              \<and> mappedSources (chunks_of resp) = Inr mapped
              \<and> (\<forall>c. block_in tagged_open c (text_of resp) \<or> block_in untagged_open c (text_of resp)
                     \<longrightarrow> (\<exists>e. json_parser p c = Inl e))
            \<longrightarrow> fetchSpaceWeather p coords =
                  Resolved 0 \<lparr>data = JNull, rawText = strip_block (text_of resp), sources = mapped\<rparr>)
       \<and> (\<forall>resp mapped pre c post. generateContent p ai (ForecastRequest coords) = Inr resp
              \<and> mappedSources (chunks_of resp) = Inr mapped
              \<and> text_of resp = pre @ tagged_open @ c @ fence_close @ post
              \<and> \<not> sublist tagged_open pre \<and> \<not> sublist fence_close c \<and> (\<exists>e. json_parser p c = Inl e)
            \<longrightarrow> fetchSpaceWeather p coords =
                  Resolved 0 \<lparr>data = JNull, rawText = strip_block (text_of resp), sources = mapped\<rparr>)
       \<and> (\<forall>resp e. generateContent p ai (ForecastRequest coords) = Inr resp
              \<and> mappedSources (chunks_of resp) = Inl e
            \<longrightarrow> fetchSpaceWeather p coords = Rejected e)"
proof (intro conjI allI impI)
  fix e
  assume "generateContent p ai (ForecastRequest coords) = Inl e"
  with assms show "fetchSpaceWeather p coords = Rejected e"
    by (simp add: fetchSpaceWeather_def)
next
  fix resp mapped
  assume g: "generateContent p ai (ForecastRequest coords) = Inr resp
              \<and> mappedSources (chunks_of resp) = Inr mapped"
  obtain v where "extractJson (json_parser p) (text_of resp) = Inr v"
    using extractJson_returns by blast
  with assms g show "\<exists>r. fetchSpaceWeather p coords = Resolved 0 r
                      \<and> extractJson (json_parser p) (text_of resp) = Inr (data r)
                      \<and> rawText r = strip_block (text_of resp)
                      \<and> sources r = mapped"
    by (simp add: fetchSpaceWeather_def)
next
  fix resp mapped
  assume a: "generateContent p ai (ForecastRequest coords) = Inr resp
              \<and> mappedSources (chunks_of resp) = Inr mapped
              \<and> (\<forall>c. block_in tagged_open c (text_of resp) \<or> block_in untagged_open c (text_of resp)
                     \<longrightarrow> (\<exists>e. json_parser p c = Inl e))"
  then have "extractJson (json_parser p) (text_of resp) = Inr JNull"
    by (intro extractJson_null_if_all_fail) blast
  with assms a show "fetchSpaceWeather p coords =
                  Resolved 0 \<lparr>data = JNull, rawText = strip_block (text_of resp), sources = mapped\<rparr>"
    by (simp add: fetchSpaceWeather_def)
next
  fix resp mapped pre c post
  assume a: "generateContent p ai (ForecastRequest coords) = Inr resp
              \<and> mappedSources (chunks_of resp) = Inr mapped
              \<and> text_of resp = pre @ tagged_open @ c @ fence_close @ post
              \<and> \<not> sublist tagged_open pre \<and> \<not> sublist fence_close c \<and> (\<exists>e. json_parser p c = Inl e)"
  then have "extractJson (json_parser p) (text_of resp) = Inr JNull"
    using extractJson_first_tagged[of pre c "json_parser p" post] by auto
  with assms a show "fetchSpaceWeather p coords =
                  Resolved 0 \<lparr>data = JNull, rawText = strip_block (text_of resp), sources = mapped\<rparr>"
    by (simp add: fetchSpaceWeather_def)
next
  fix resp e
  assume "generateContent p ai (ForecastRequest coords) = Inr resp
              \<and> mappedSources (chunks_of resp) = Inl e"
  with assms show "fetchSpaceWeather p coords = Rejected e"
    by (simp add: fetchSpaceWeather_def)
qed

theorem fetchSpaceWeather_provider_failure_propagates_witness:
  "fetchSpaceWeather (live_platform (Inl (ProviderError (js ''429''))))
      \<lparr>latitude = 641265 / 10000, longitude = - (218174 / 10000)\<rparr>
     = Rejected (ProviderError (js ''429''))
   \<and> fetchSpaceWeather
        (live_platform (reply_with_chunks (js ''Quiet night.\<newline>```json\<newline>bad\<newline>```'')
           [Object \<lparr>web = Object noaa_source\<rparr>, Object \<lparr>web = Undefined\<rparr>]))
        \<lparr>latitude = 641265 / 10000, longitude = - (218174 / 10000)\<rparr>
     = Resolved 0 \<lparr>data = JNull, rawText = js ''Quiet night.'', sources = [noaa_source]\<rparr>
   \<and> fetchSpaceWeather
        (live_platform (reply_with_chunks (js ''Quiet night.'') [Object \<lparr>web = Null\<rparr>]))
        \<lparr>latitude = 641265 / 10000, longitude = - (218174 / 10000)\<rparr>
     = Rejected TypeError"
proof (intro conjI)
  let ?c = "\<lparr>latitude = 641265 / 10000, longitude = - (218174 / 10000)\<rparr>"
  let ?p1 = "live_platform (Inl (ProviderError (js ''429'')))"
  have "generateContent ?p1 (GoogleGenAI (js ''test-key'')) (ForecastRequest ?c) = Inl (ProviderError (js ''429''))"
    by (simp add: live_platform_def)
  with fetchSpaceWeather_provider_failure_propagates[OF getAI_live, of "Inl (ProviderError (js ''429''))" ?c]
  show "fetchSpaceWeather ?p1 ?c = Rejected (ProviderError (js ''429''))" by blast
next
  let ?c = "\<lparr>latitude = 641265 / 10000, longitude = - (218174 / 10000)\<rparr>"
  let ?t = "js ''Quiet night.\<newline>```json\<newline>bad\<newline>```''"
  let ?ch = "[Object \<lparr>web = Object noaa_source\<rparr>, Object \<lparr>web = Undefined\<rparr>]"
  let ?r = "\<lparr>response_text = Some ?t,
            candidates = Some [\<lparr>groundingMetadata = Some \<lparr>groundingChunks = Some ?ch\<rparr>\<rparr>]\<rparr>"
  let ?p2 = "live_platform (reply_with_chunks ?t ?ch)"
  have g: "generateContent ?p2 (GoogleGenAI (js ''test-key'')) (ForecastRequest ?c) = Inr ?r"
    by (simp add: live_platform_def reply_with_chunks_def)
  have t: "text_of ?r = js ''Quiet night.\<newline>'' @ tagged_open @ js ''bad'' @ fence_close @ []"
    by (simp add: text_of_def fence_eval)
  have j: "json_parser ?p2 = JSON_parse" by (simp add: live_platform_def)
  have f': "JSON_parse (js ''bad'') = Inl SyntaxError" by (simp add: json_eval js_def)
  have n1: "\<not> sublist tagged_open (js ''Quiet night.\<newline>'')" by (simp add: fence_eval sublist_Cons_right)
  have n2: "\<not> sublist fence_close (js ''bad'')" by (simp add: fence_eval sublist_Cons_right)
  have s: "strip_block (text_of ?r) = js ''Quiet night.''"
    by (simp add: text_of_def strip_eval regex_eval js_def)
  have m: "mappedSources (chunks_of ?r) = Inr [noaa_source]"
    by (simp add: mappedSources_def chunks_of_def)
  from fetchSpaceWeather_provider_failure_propagates[OF getAI_live, of "reply_with_chunks ?t ?ch" ?c]
    g t j f' n1 n2 m
  have "fetchSpaceWeather ?p2 ?c = Resolved 0 \<lparr>data = JNull, rawText = strip_block (text_of ?r),
                              sources = [noaa_source]\<rparr>" by metis
  with s show "fetchSpaceWeather ?p2 ?c
      = Resolved 0 \<lparr>data = JNull, rawText = js ''Quiet night.'', sources = [noaa_source]\<rparr>"
    by simp
next
  let ?c = "\<lparr>latitude = 641265 / 10000, longitude = - (218174 / 10000)\<rparr>"
  let ?t = "js ''Quiet night.''"
  let ?ch = "[Object \<lparr>web = Null\<rparr>]"
  let ?r = "\<lparr>response_text = Some ?t,
            candidates = Some [\<lparr>groundingMetadata = Some \<lparr>groundingChunks = Some ?ch\<rparr>\<rparr>]\<rparr>"
  let ?p3 = "live_platform (reply_with_chunks ?t ?ch)"
  have g: "generateContent ?p3 (GoogleGenAI (js ''test-key'')) (ForecastRequest ?c) = Inr ?r"
    by (simp add: live_platform_def reply_with_chunks_def)
  have m: "mappedSources (chunks_of ?r) = Inl TypeError"
    by (simp add: mappedSources_def chunks_of_def)
  from fetchSpaceWeather_provider_failure_propagates[OF getAI_live, of "reply_with_chunks ?t ?ch" ?c] g m
  show "fetchSpaceWeather ?p3 ?c = Rejected TypeError" by blast
qed

text \<open>
  C10. For every input text with two (or more) tagged fenced blocks, each with valid JSON
  content, \<open>extractJson\<close> returns the decoded content of the earliest one; the later
  blocks, and everything else after the first, have no influence.
\<close>

theorem earliest_tagged_block_wins:
  assumes "\<not> sublist tagged_open p" and "JSON_parse c1 = Inr v1" and "JSON_parse c2 = Inr v2"
  shows "extractJson JSON_parse
           (p @ tagged_open @ c1 @ fence_close @ mid @ tagged_open @ c2 @ fence_close @ r) = Inr v1"
  using extractJson_first_tagged[OF assms(1) JSON_parse_no_fence[OF assms(2)], of JSON_parse
      "mid @ tagged_open @ c2 @ fence_close @ r"] assms(2)
  by simp

theorem earliest_tagged_block_wins_witness:
  "extractJson JSON_parse
     (js ''First:\<newline>```json\<newline>{\"kp\":1}\<newline>```\<newline>Second:\<newline>```json\<newline>{\"kp\":2}\<newline>```\<newline>'')
     = Inr (JObj [(js ''kp'', JNum 1)])"
proof -
  have t: "js ''First:\<newline>```json\<newline>{\"kp\":1}\<newline>```\<newline>Second:\<newline>```json\<newline>{\"kp\":2}\<newline>```\<newline>''
           = js ''First:\<newline>'' @ tagged_open @ js ''{\"kp\":1}'' @ fence_close
             @ js ''\<newline>Second:\<newline>'' @ tagged_open @ js ''{\"kp\":2}'' @ fence_close @ js ''\<newline>''"
    by (simp add: fence_eval)
  have n: "\<not> sublist tagged_open (js ''First:\<newline>'')"
    by (simp add: fence_eval sublist_Cons_right)
  have j1: "JSON_parse (js ''{\"kp\":1}'') = Inr (JObj [(js ''kp'', JNum 1)])"
    by (simp add: json_eval js_def)
  have j2: "JSON_parse (js ''{\"kp\":2}'') = Inr (JObj [(js ''kp'', JNum 2)])"
    by (simp add: json_eval js_def)
  from earliest_tagged_block_wins[OF n j1 j2, of "js ''\<newline>Second:\<newline>''" "js ''\<newline>''"] t
  show ?thesis by simp
qed

end
